theory Spec2Isabelle
  imports Main "HOL-Library.AList" "HOL-Library.Char_ord" "HOL-Library.List_Lexorder"
begin

section \<open>Planner: the step model\<close>

text \<open>
  \<^verbatim>\<open>PlanStep\<close> of package \<^verbatim>\<open>plan\<close>, which the executor refers to as \<^verbatim>\<open>plan.Step\<close>.
  Go strings are byte strings compared bytewise, which is the lexicographic order on
  \<^typ>\<open>string\<close> with the order on \<^typ>\<open>char\<close> by code point. A Go map is kept as an
  association list read with \<^const>\<open>map_of\<close> and written with \<^const>\<open>AList.update\<close>.
\<close>

record PlanStep =
  ID :: string
  Type :: string
  Command :: "string list"
  Deps :: "string list"
  Env :: "(string \<times> string) list"
  Timeout :: string
  Retries :: int

datatype plan_error =
    ProjectNameEmpty
  | ProfileNameEmpty
  | CycleDetected nat nat
  | BuildPlan plan_error

section \<open>Planner: TopologicalSort\<close>

text \<open>\<^verbatim>\<open>inDegree[id]\<close> and \<^verbatim>\<open>adjList[id]\<close>: a missing key reads as the zero value.\<close>

definition degOf :: "(string \<times> int) list \<Rightarrow> string \<Rightarrow> int" where
  "degOf inDegree k = (case map_of inDegree k of None \<Rightarrow> 0 | Some v \<Rightarrow> v)"

definition adjOf :: "(string \<times> string list) list \<Rightarrow> string \<Rightarrow> string list" where
  "adjOf adjList k = (case map_of adjList k of None \<Rightarrow> [] | Some v \<Rightarrow> v)"

text \<open>The inner loop over \<^verbatim>\<open>step.Deps\<close> while the graph is built.\<close>

fun addDeps :: "string \<Rightarrow> string list \<Rightarrow>
    (string \<times> int) list \<times> (string \<times> string list) list \<Rightarrow>
    (string \<times> int) list \<times> (string \<times> string list) list" where
  "addDeps sid [] (inDegree, adjList) = (inDegree, adjList)"
| "addDeps sid (dep # deps) (inDegree, adjList) =
     addDeps sid deps
       (AList.update sid (degOf inDegree sid + 1) inDegree,
        AList.update dep (adjOf adjList dep @ [sid]) adjList)"

text \<open>The outer loop over \<^verbatim>\<open>steps\<close>: step map, in-degree map and adjacency list.\<close>

fun buildGraph :: "PlanStep list \<Rightarrow>
    (string \<times> PlanStep) list \<times> (string \<times> int) list \<times> (string \<times> string list) list \<Rightarrow>
    (string \<times> PlanStep) list \<times> (string \<times> int) list \<times> (string \<times> string list) list" where
  "buildGraph [] g = g"
| "buildGraph (step # steps) (stepMap, inDegree, adjList) =
     (let stepMap' = AList.update (ID step) step stepMap;
          inDegree' = (if map_of inDegree (ID step) = None
                       then AList.update (ID step) 0 inDegree else inDegree)
      in buildGraph steps (stepMap', addDeps (ID step) (Deps step) (inDegree', adjList)))"

text \<open>
  The loop over the sorted neighbours of the step just ordered: decrement, and when the
  in-degree reaches zero append to \<^verbatim>\<open>ready\<close> and sort it again.
\<close>

fun relax :: "string list \<Rightarrow> (string \<times> int) list \<times> string list \<Rightarrow>
    (string \<times> int) list \<times> string list" where
  "relax [] (inDegree, ready) = (inDegree, ready)"
| "relax (neighbor # ns) (inDegree, ready) =
     (let inDegree' = AList.update neighbor (degOf inDegree neighbor - 1) inDegree
      in if degOf inDegree' neighbor = 0
         then relax ns (inDegree', sort (ready @ [neighbor]))
         else relax ns (inDegree', ready))"

text \<open>The measure of the main loop: the ready list and the positive in-degrees left.\<close>

definition degSum :: "(string \<times> int) list \<Rightarrow> nat" where
  "degSum inDegree = sum_list (map (\<lambda>kv. nat (snd kv)) inDegree)"

lemma degSum_update_absent:
  "map_of m k = None \<Longrightarrow> degSum (AList.update k v m) = degSum m + nat v"
  by (induction m) (auto simp: degSum_def split: if_splits)

lemma degSum_update_present:
  "map_of m k = Some w \<Longrightarrow> degSum (AList.update k v m) + nat w = degSum m + nat v"
  by (induction m) (auto simp: degSum_def split: if_splits)

lemma degSum_decrement:
  "degSum (AList.update k (degOf m k - 1) m) + (if 1 \<le> degOf m k then 1 else 0) = degSum m"
proof (cases "map_of m k")
  case None
  then show ?thesis by (simp add: degSum_update_absent degOf_def)
next
  case (Some w)
  from degSum_update_present [OF Some, of "w - 1"] Some show ?thesis
    by (auto simp: degOf_def)
qed

lemma degOf_update: "degOf (AList.update k v m) k' = (if k' = k then v else degOf m k')"
  by (simp add: degOf_def update_conv')

lemma relax_measure:
  "relax ns (inDegree, ready) = (inDegree', ready') \<Longrightarrow>
     length ready' + degSum inDegree' \<le> length ready + degSum inDegree"
proof (induction ns arbitrary: inDegree ready)
  case Nil
  then show ?case by simp
next
  case (Cons n ns)
  let ?d = "AList.update n (degOf inDegree n - 1) inDegree"
  show ?case
  proof (cases "degOf inDegree n = 1")
    case True
    with Cons.prems have "relax ns (?d, sort (ready @ [n])) = (inDegree', ready')"
      by (simp add: degOf_update)
    from Cons.IH [OF this] degSum_decrement [of n inDegree] True show ?thesis by simp
  next
    case False
    with Cons.prems have "relax ns (?d, ready) = (inDegree', ready')"
      by (simp add: degOf_update)
    from Cons.IH [OF this] degSum_decrement [of n inDegree] show ?thesis
      by (simp split: if_splits)
  qed
qed

text \<open>
  The main loop \<^verbatim>\<open>for len(ready) > 0\<close>: pop the head of \<^verbatim>\<open>ready\<close>, append it to
  \<^verbatim>\<open>order\<close>, sort its neighbours and relax them.
\<close>

function sortLoop :: "(string \<times> string list) list \<Rightarrow> (string \<times> int) list \<Rightarrow>
    string list \<Rightarrow> string list \<Rightarrow> string list" where
  "sortLoop adjList inDegree [] order = order"
| "sortLoop adjList inDegree (current # ready) order =
     (case relax (sort (adjOf adjList current)) (inDegree, ready) of
        (inDegree', ready') \<Rightarrow> sortLoop adjList inDegree' ready' (order @ [current]))"
  by pat_completeness auto
termination
  by (relation "measure (\<lambda>(adjList, inDegree, ready, order). length ready + degSum inDegree)")
    (auto dest!: relax_measure [OF sym])

text \<open>
  \<^verbatim>\<open>TopologicalSort\<close>. The loop \<^verbatim>\<open>for id := range stepMap\<close> visits every key of the map
  once, in an order Go leaves unspecified, and the list it collects is sorted right after;
  the keys are taken here in the order of first insertion.
\<close>

definition TopologicalSort :: "PlanStep list \<Rightarrow> plan_error + string list" where
  "TopologicalSort steps =
     (if length steps = 0 then Inr []
      else case buildGraph steps ([], [], []) of (stepMap, inDegree, adjList) \<Rightarrow>
        let ready = sort (filter (\<lambda>id. degOf inDegree id = 0) (map fst stepMap));
            order = sortLoop adjList inDegree ready []
        in if length order \<noteq> length steps
           then Inl (CycleDetected (length order) (length steps))
           else Inr order)"


section \<open>TopologicalSort: the dependency graph of a step list\<close>

text \<open>
  \<open>allDeps steps n\<close> collects the dependency ids of every step whose id is \<open>n\<close>;
  \<open>pending steps order n\<close> counts those not yet in \<open>order\<close>; \<open>depRel steps\<close> holds
  \<open>(n, d)\<close> when a step with id \<open>n\<close> lists \<open>d\<close> among its dependencies.
\<close>


definition allDeps :: "PlanStep list \<Rightarrow> string \<Rightarrow> string list" where
  "allDeps steps n = concat (map Deps (filter (\<lambda>s. ID s = n) steps))"

definition pending :: "PlanStep list \<Rightarrow> string list \<Rightarrow> string \<Rightarrow> nat" where
  "pending steps order n = length (filter (\<lambda>d. d \<notin> set order) (allDeps steps n))"

definition depRel :: "PlanStep list \<Rightarrow> (string \<times> string) set" where
  "depRel steps = {(n, d). \<exists>s \<in> set steps. ID s = n \<and> d \<in> set (Deps s)}"

lemma adjOf_update: "adjOf (AList.update k v m) k' = (if k' = k then v else adjOf m k')"
  by (simp add: adjOf_def update_conv')

lemma addDeps_deg:
  "degOf (fst (addDeps sid deps (inDegree, adjList))) k =
     degOf inDegree k + (if k = sid then int (length deps) else 0)"
  by (induction deps arbitrary: inDegree adjList) (auto simp: degOf_update)

lemma addDeps_adj:
  "count_list (adjOf (snd (addDeps sid deps (inDegree, adjList))) d) n =
     count_list (adjOf adjList d) n + (if n = sid then count_list deps d else 0)"
  by (induction deps arbitrary: inDegree adjList) (auto simp: adjOf_update)

lemma allDeps_Cons:
  "allDeps (s # steps) n = (if ID s = n then Deps s @ allDeps steps n else allDeps steps n)"
  by (simp add: allDeps_def)

lemma degOf_init: "degOf (if map_of m k = None then AList.update k 0 m else m) k' = degOf m k'"
  by (auto simp: degOf_update) (simp add: degOf_def)

lemma buildGraph_deg:
  "buildGraph steps (stepMap, inDegree, adjList) = (stepMap', inDegree', adjList') \<Longrightarrow>
     degOf inDegree' k = degOf inDegree k + int (length (allDeps steps k))"
proof (induction steps arbitrary: stepMap inDegree adjList)
  case Nil
  then show ?case by (simp add: allDeps_def)
next
  case (Cons s steps)
  let ?d0 = "if map_of inDegree (ID s) = None then AList.update (ID s) 0 inDegree else inDegree"
  obtain d1 a1 where a: "addDeps (ID s) (Deps s) (?d0, adjList) = (d1, a1)"
    by (cases "addDeps (ID s) (Deps s) (?d0, adjList)")
  with Cons.prems have "buildGraph steps (AList.update (ID s) s stepMap, d1, a1) = (stepMap', inDegree', adjList')"
    by (simp add: Let_def)
  from Cons.IH [OF this] have "degOf inDegree' k = degOf d1 k + int (length (allDeps steps k))" .
  moreover from addDeps_deg [of "ID s" "Deps s" ?d0 adjList k] a
  have "degOf d1 k = degOf inDegree k + (if k = ID s then int (length (Deps s)) else 0)"
    by (simp only: fst_conv degOf_init)
  ultimately show ?case by (simp add: allDeps_Cons)
qed

lemma buildGraph_adj:
  "buildGraph steps (stepMap, inDegree, adjList) = (stepMap', inDegree', adjList') \<Longrightarrow>
     count_list (adjOf adjList' d) n = count_list (adjOf adjList d) n + count_list (allDeps steps n) d"
proof (induction steps arbitrary: stepMap inDegree adjList)
  case Nil
  then show ?case by (simp add: allDeps_def)
next
  case (Cons s steps)
  let ?d0 = "if map_of inDegree (ID s) = None then AList.update (ID s) 0 inDegree else inDegree"
  obtain d1 a1 where a: "addDeps (ID s) (Deps s) (?d0, adjList) = (d1, a1)"
    by (cases "addDeps (ID s) (Deps s) (?d0, adjList)")
  with Cons.prems have "buildGraph steps (AList.update (ID s) s stepMap, d1, a1) = (stepMap', inDegree', adjList')"
    by (simp add: Let_def)
  from Cons.IH [OF this]
  have "count_list (adjOf adjList' d) n = count_list (adjOf a1 d) n + count_list (allDeps steps n) d" .
  moreover from addDeps_adj [of "ID s" "Deps s" ?d0 adjList d n] a
  have "count_list (adjOf a1 d) n = count_list (adjOf adjList d) n + (if n = ID s then count_list (Deps s) d else 0)"
    by (simp only: snd_conv)
  ultimately show ?case by (simp add: allDeps_Cons)
qed

lemma buildGraph_keys:
  "buildGraph steps (stepMap, inDegree, adjList) = (stepMap', inDegree', adjList') \<Longrightarrow>
     set (map fst stepMap') = set (map fst stepMap) \<union> ID ` set steps \<and>
     (distinct (map fst stepMap) \<longrightarrow> distinct (map fst stepMap'))"
proof (induction steps arbitrary: stepMap inDegree adjList)
  case Nil
  then show ?case by simp
next
  case (Cons s steps)
  let ?d0 = "if map_of inDegree (ID s) = None then AList.update (ID s) 0 inDegree else inDegree"
  obtain d1 a1 where a: "addDeps (ID s) (Deps s) (?d0, adjList) = (d1, a1)"
    by (cases "addDeps (ID s) (Deps s) (?d0, adjList)")
  with Cons.prems have "buildGraph steps (AList.update (ID s) s stepMap, d1, a1) = (stepMap', inDegree', adjList')"
    by (simp add: Let_def)
  from Cons.IH [OF this] show ?case
    by (auto simp: update_keys split: if_splits)
qed


lemma relax_deg:
  "degOf (fst (relax ns (inDegree, ready))) n = degOf inDegree n - int (count_list ns n)"
  by (induction ns arbitrary: inDegree ready) (auto simp: degOf_update Let_def)

lemma relax_ready_set:
  "set (snd (relax ns (inDegree, ready))) =
     set ready \<union> {n \<in> set ns. 1 \<le> degOf inDegree n \<and> degOf inDegree n \<le> int (count_list ns n)}"
proof (induction ns arbitrary: inDegree ready)
  case Nil
  then show ?case by simp
next
  case (Cons m ns)
  let ?d = "AList.update m (degOf inDegree m - 1) inDegree"
  have in_ns: "\<And>n. 1 \<le> int (count_list ns n) \<Longrightarrow> n \<in> set ns"
    by (metis count_list_0_iff of_nat_0 not_one_le_zero)
  show ?case
  proof (cases "degOf inDegree m = 1")
    case True
    then have "snd (relax (m # ns) (inDegree, ready)) = snd (relax ns (?d, sort (ready @ [m])))"
      by (simp add: degOf_update)
    then show ?thesis
      using True by (auto simp: Cons.IH degOf_update)
  next
    case False
    then have "snd (relax (m # ns) (inDegree, ready)) = snd (relax ns (?d, ready))"
      by (simp add: degOf_update)
    then show ?thesis
      using False in_ns [of m] by (auto simp: Cons.IH degOf_update)
  qed
qed

lemma relax_distinct:
  "distinct ready \<Longrightarrow> \<forall>n\<in>set ready. degOf inDegree n \<le> 0 \<Longrightarrow>
     distinct (snd (relax ns (inDegree, ready)))"
proof (induction ns arbitrary: inDegree ready)
  case Nil
  then show ?case by simp
next
  case (Cons m ns)
  let ?d = "AList.update m (degOf inDegree m - 1) inDegree"
  show ?case
  proof (cases "degOf inDegree m = 1")
    case True
    with Cons.prems have "m \<notin> set ready" by auto
    with Cons.prems True have "distinct (sort (ready @ [m]))"
      and "\<forall>n\<in>set (sort (ready @ [m])). degOf ?d n \<le> 0"
      by (auto simp: degOf_update)
    from Cons.IH [OF this] True show ?thesis by (simp add: degOf_update)
  next
    case False
    from Cons.prems have "distinct ready" and "\<forall>n\<in>set ready. degOf ?d n \<le> 0"
      by (auto simp: degOf_update)
    from Cons.IH [OF this] False show ?thesis by (simp add: degOf_update)
  qed
qed

lemma relax_sorted:
  "sorted ready \<Longrightarrow> sorted (snd (relax ns (inDegree, ready)))"
  by (induction ns arbitrary: inDegree ready) (auto simp: Let_def)

lemma pending_snoc:
  "c \<notin> set order \<Longrightarrow>
     pending steps (order @ [c]) n + count_list (allDeps steps n) c = pending steps order n"
proof -
  have "c \<notin> set order \<Longrightarrow>
      length (filter (\<lambda>d. d \<notin> set (order @ [c])) xs) + count_list xs c
        = length (filter (\<lambda>d. d \<notin> set order) xs)" for xs
    by (induction xs) auto
  then show "c \<notin> set order \<Longrightarrow> ?thesis" by (simp add: pending_def)
qed

lemma pending_zero: "pending steps order n = 0 \<longleftrightarrow> set (allDeps steps n) \<subseteq> set order"
  by (auto simp: pending_def filter_empty_conv)

lemma allDeps_not_step: "n \<notin> ID ` set steps \<Longrightarrow> allDeps steps n = []"
  by (auto simp: allDeps_def filter_empty_conv)

lemma set_allDeps: "set (allDeps steps n) = {d. (n, d) \<in> depRel steps}"
  by (auto simp: allDeps_def depRel_def)


definition depsBefore :: "PlanStep list \<Rightarrow> string list \<Rightarrow> bool" where
  "depsBefore steps order \<longleftrightarrow>
     (\<forall>i<length order. set (allDeps steps (order ! i)) \<subseteq> set (take i order))"

definition leastReady :: "PlanStep list \<Rightarrow> string list \<Rightarrow> bool" where
  "leastReady steps order \<longleftrightarrow>
     (\<forall>i<length order. \<forall>n\<in>ID ` set steps.
        n \<notin> set (take i order) \<longrightarrow> set (allDeps steps n) \<subseteq> set (take i order) \<longrightarrow> order ! i \<le> n)"

definition sortInv :: "PlanStep list \<Rightarrow> (string \<times> int) list \<Rightarrow> string list \<Rightarrow> string list \<Rightarrow> bool" where
  "sortInv steps inDegree ready order \<longleftrightarrow>
     distinct (order @ ready) \<and>
     (\<forall>n. degOf inDegree n = int (pending steps order n)) \<and>
     set ready = {n \<in> ID ` set steps. pending steps order n = 0} - set order \<and>
     set order \<subseteq> ID ` set steps \<and>
     sorted ready \<and>
     depsBefore steps order \<and>
     leastReady steps order"

lemma depsBefore_snoc:
  "depsBefore steps order \<Longrightarrow> set (allDeps steps c) \<subseteq> set order \<Longrightarrow>
     depsBefore steps (order @ [c])"
  unfolding depsBefore_def by (auto simp: nth_append less_Suc_eq)

lemma leastReady_snoc:
  "leastReady steps order \<Longrightarrow>
   (\<forall>n\<in>ID ` set steps. n \<notin> set order \<longrightarrow> set (allDeps steps n) \<subseteq> set order \<longrightarrow> c \<le> n) \<Longrightarrow>
     leastReady steps (order @ [c])"
  unfolding leastReady_def by (auto simp: nth_append less_Suc_eq)

lemma depsBefore_pending:
  "depsBefore steps order \<Longrightarrow> n \<in> set order \<Longrightarrow> pending steps order n = 0"
proof -
  assume d: "depsBefore steps order" and n: "n \<in> set order"
  then obtain i where i: "i < length order" "order ! i = n" by (auto simp: in_set_conv_nth)
  with d have "set (allDeps steps n) \<subseteq> set (take i order)" by (auto simp: depsBefore_def)
  also have "\<dots> \<subseteq> set order" by (rule set_take_subset)
  finally show ?thesis by (simp add: pending_zero)
qed

lemma count_list_insort: "count_list (insort x xs) n = count_list (x # xs) n"
  by (induction xs) auto

lemma count_list_sort: "count_list (sort xs) n = count_list xs n"
  by (induction xs) (auto simp: sort_key_simps count_list_insort)

lemma sortInv_step:
  assumes inv: "sortInv steps inDegree (c # ready) order"
    and adj: "\<And>d n. count_list (adjOf adjList d) n = count_list (allDeps steps n) d"
    and rel: "relax (sort (adjOf adjList c)) (inDegree, ready) = (inDegree', ready')"
  shows "sortInv steps inDegree' ready' (order @ [c])"
proof -
  let ?ns = "sort (adjOf adjList c)"
  let ?ids = "ID ` set steps"
  from inv have dist: "distinct order" "distinct ready" "c \<notin> set order" "c \<notin> set ready"
      "set order \<inter> set ready = {}"
    and degs: "\<And>n. degOf inDegree n = int (pending steps order n)"
    and rdy: "set (c # ready) = {n \<in> ?ids. pending steps order n = 0} - set order"
    and sub: "set order \<subseteq> ?ids"
    and srt: "sorted (c # ready)"
    and db: "depsBefore steps order"
    and lr: "leastReady steps order"
    by (auto simp: sortInv_def)
  have cnt: "count_list ?ns n = count_list (allDeps steps n) c" for n
    by (simp add: count_list_sort adj)
  have c_ready: "c \<in> ?ids" "pending steps order c = 0"
    using rdy by auto
  have pend: "pending steps (order @ [c]) n + count_list ?ns n = pending steps order n" for n
    using pending_snoc [OF dist(3), of steps n] by (simp add: cnt)
  have deg': "degOf inDegree' n = int (pending steps (order @ [c]) n)" for n
    using relax_deg [of ?ns inDegree ready n] rel degs [of n] pend [of n] by simp
  have rs: "set ready' = set ready \<union>
      {n \<in> set ?ns. 1 \<le> pending steps order n \<and> pending steps order n \<le> count_list ?ns n}"
    using relax_ready_set [of ?ns inDegree ready] rel by (simp add: degs)
  have ns_ids: "n \<in> ?ids" if "n \<in> set ?ns" for n
  proof (rule ccontr)
    assume "n \<notin> ?ids"
    then have "count_list ?ns n = 0" by (simp add: cnt allDeps_not_step)
    with that show False by (simp add: count_list_0_iff)
  qed
  have in_ns: "n \<in> set ?ns" if "1 \<le> count_list ?ns n" for n
    using that by (metis count_list_0_iff not_one_le_zero)
  have ready'_set: "set ready' = {n \<in> ?ids. pending steps (order @ [c]) n = 0} - set (order @ [c])"
  proof (intro set_eqI iffI)
    fix n assume "n \<in> set ready'"
    then consider "n \<in> set ready"
      | "n \<in> set ?ns" "1 \<le> pending steps order n" "pending steps order n \<le> count_list ?ns n"
      using rs by auto
    then show "n \<in> {n \<in> ?ids. pending steps (order @ [c]) n = 0} - set (order @ [c])"
    proof cases
      case 1
      with rdy have "n \<in> ?ids" "pending steps order n = 0" "n \<notin> set order" by auto
      moreover from 1 dist have "n \<noteq> c" by auto
      ultimately show ?thesis using pend [of n] by auto
    next
      case 2
      from 2(2) depsBefore_pending [OF db, of n] have "n \<notin> set order" by auto
      moreover from 2(2) c_ready have "n \<noteq> c" by auto
      moreover from 2 pend [of n] have "pending steps (order @ [c]) n = 0" by simp
      ultimately show ?thesis using ns_ids [OF 2(1)] by auto
    qed
  next
    fix n assume "n \<in> {n \<in> ?ids. pending steps (order @ [c]) n = 0} - set (order @ [c])"
    then have n: "n \<in> ?ids" "pending steps (order @ [c]) n = 0" "n \<notin> set order" "n \<noteq> c"
      by auto
    show "n \<in> set ready'"
    proof (cases "pending steps order n = 0")
      case True
      with n rdy have "n \<in> set (c # ready)" by blast
      with n rs show ?thesis by auto
    next
      case False
      with n pend [of n] have "1 \<le> pending steps order n" "pending steps order n \<le> count_list ?ns n"
        by auto
      with in_ns [of n] rs show ?thesis by auto
    qed
  qed
  have "\<forall>n\<in>set ready. degOf inDegree n \<le> 0"
    using rdy by (auto simp: degs)
  from relax_distinct [OF dist(2) this, of ?ns] rel have d_ready': "distinct ready'" by simp
  from srt have "sorted ready" by simp
  from relax_sorted [OF this, of ?ns inDegree] rel have s_ready': "sorted ready'" by simp
  have deps_c: "set (allDeps steps c) \<subseteq> set order"
    using c_ready by (simp add: pending_zero)
  have least_c: "\<forall>n\<in>?ids. n \<notin> set order \<longrightarrow> set (allDeps steps n) \<subseteq> set order \<longrightarrow> c \<le> n"
  proof (intro ballI impI)
    fix n assume "n \<in> ?ids" "n \<notin> set order" "set (allDeps steps n) \<subseteq> set order"
    with rdy have "n \<in> set (c # ready)" by (auto simp: pending_zero)
    with srt show "c \<le> n" by auto
  qed
  have "distinct ((order @ [c]) @ ready')"
    using dist d_ready' ready'_set by auto
  moreover have "set (order @ [c]) \<subseteq> ?ids" using sub c_ready by simp
  ultimately show ?thesis
    unfolding sortInv_def
    using deg' ready'_set s_ready' depsBefore_snoc [OF db deps_c] leastReady_snoc [OF lr least_c]
    by blast
qed

lemma sortLoop_inv:
  "(\<And>d n. count_list (adjOf adjList d) n = count_list (allDeps steps n) d) \<Longrightarrow>
   sortInv steps inDegree ready order \<Longrightarrow>
     \<exists>inDegree'. sortInv steps inDegree' [] (sortLoop adjList inDegree ready order)"
proof (induction adjList inDegree ready order rule: sortLoop.induct)
  case (1 adjList inDegree order)
  then show ?case by auto
next
  case (2 adjList inDegree current ready order)
  obtain inDegree' ready' where
    rel: "relax (sort (adjOf adjList current)) (inDegree, ready) = (inDegree', ready')"
    by (cases "relax (sort (adjOf adjList current)) (inDegree, ready)")
  from sortInv_step [OF "2.prems"(2) "2.prems"(1) rel]
  have "sortInv steps inDegree' ready' (order @ [current])" .
  from "2.IH" [OF rel [symmetric] "2.prems"(1) this] rel show ?case by simp
qed



section \<open>TopologicalSort: what the loop returns\<close>


lemma sortInv_init:
  assumes g: "buildGraph steps ([], [], []) = (stepMap, inDegree, adjList)"
  shows "sortInv steps inDegree (sort (filter (\<lambda>id. degOf inDegree id = 0) (map fst stepMap))) []"
proof -
  from buildGraph_keys [OF g] have keys: "set (map fst stepMap) = ID ` set steps"
    "distinct (map fst stepMap)" by auto
  from buildGraph_deg [OF g] have deg: "degOf inDegree n = int (pending steps [] n)" for n
    by (simp add: pending_def degOf_def)
  show ?thesis
    unfolding sortInv_def depsBefore_def leastReady_def
    using keys deg by auto
qed

lemma buildGraph_adj0:
  assumes g: "buildGraph steps ([], [], []) = (stepMap, inDegree, adjList)"
  shows "count_list (adjOf adjList d) n = count_list (allDeps steps n) d"
  using buildGraph_adj [OF g, of d n] by (simp add: adjOf_def)

text \<open>What the main loop leaves: the final order of a non-empty step list.\<close>

definition finalOrder :: "PlanStep list \<Rightarrow> string list" where
  "finalOrder steps =
     (case buildGraph steps ([], [], []) of (stepMap, inDegree, adjList) \<Rightarrow>
        sortLoop adjList inDegree (sort (filter (\<lambda>id. degOf inDegree id = 0) (map fst stepMap))) [])"

lemma TopologicalSort_finalOrder:
  "TopologicalSort steps =
     (if steps = [] then Inr []
      else if length (finalOrder steps) \<noteq> length steps
           then Inl (CycleDetected (length (finalOrder steps)) (length steps))
           else Inr (finalOrder steps))"
  by (simp add: TopologicalSort_def finalOrder_def Let_def split: prod.splits)

lemma finalOrder_inv:
  "\<exists>inDegree'. sortInv steps inDegree' [] (finalOrder steps)"
proof -
  obtain stepMap inDegree adjList where g: "buildGraph steps ([], [], []) = (stepMap, inDegree, adjList)"
    by (cases "buildGraph steps ([], [], [])")
  from sortLoop_inv [OF buildGraph_adj0 [OF g] sortInv_init [OF g]] g
  show ?thesis by (simp add: finalOrder_def)
qed

lemma finalOrder_facts:
  "distinct (finalOrder steps)"
  "set (finalOrder steps) \<subseteq> ID ` set steps"
  "depsBefore steps (finalOrder steps)"
  "leastReady steps (finalOrder steps)"
  "\<And>n. n \<in> ID ` set steps \<Longrightarrow> n \<notin> set (finalOrder steps) \<Longrightarrow>
      \<exists>d \<in> set (allDeps steps n). d \<notin> set (finalOrder steps)"
  using finalOrder_inv [of steps] by (auto simp: sortInv_def pending_zero)

lemma finite_depRel: "finite (depRel steps)"
proof -
  have "depRel steps \<subseteq> (ID ` set steps) \<times> (\<Union>s\<in>set steps. set (Deps s))"
    by (auto simp: depRel_def)
  then show ?thesis by (rule finite_subset) auto
qed

lemma finalOrder_complete:
  assumes res: "\<forall>s\<in>set steps. set (Deps s) \<subseteq> ID ` set steps"
    and acyc: "acyclic (depRel steps)"
  shows "set (finalOrder steps) = ID ` set steps"
proof (rule ccontr)
  let ?U = "ID ` set steps - set (finalOrder steps)"
  assume "set (finalOrder steps) \<noteq> ID ` set steps"
  with finalOrder_facts(2) [of steps] obtain x where x: "x \<in> ?U" by auto
  from acyc have "acyclic ((depRel steps)\<inverse>)" by simp
  with finite_depRel [of steps] have "wf ((depRel steps)\<inverse>)"
    by (simp add: finite_acyclic_wf)
  from wfE_min [OF this x] obtain z where z: "z \<in> ?U"
    and zmin: "\<And>y. (y, z) \<in> (depRel steps)\<inverse> \<Longrightarrow> y \<notin> ?U" by blast
  from z finalOrder_facts(5) [of z steps] obtain d where
    d: "d \<in> set (allDeps steps z)" "d \<notin> set (finalOrder steps)" by auto
  from d(1) have zd: "(z, d) \<in> depRel steps" by (simp add: set_allDeps)
  then have "d \<in> ID ` set steps" using res by (auto simp: depRel_def)
  with d(2) zmin [of d] zd show False by auto
qed

lemma finalOrder_no_cycle_member:
  assumes "(x, x) \<in> (depRel steps)\<^sup>+"
  shows "x \<notin> set (finalOrder steps)"
proof
  let ?o = "finalOrder steps"
  let ?P = "\<lambda>i. i < length ?o \<and> (?o ! i, ?o ! i) \<in> (depRel steps)\<^sup>+"
  assume "x \<in> set ?o"
  then obtain k where "k < length ?o" "?o ! k = x" by (auto simp: in_set_conv_nth)
  with assms have "?P k" by simp
  define i where "i = (LEAST i. ?P i)"
  from \<open>?P k\<close> have Pi: "?P i" unfolding i_def by (rule LeastI)
  have least: "\<And>j. ?P j \<Longrightarrow> i \<le> j" unfolding i_def by (rule Least_le)
  from Pi obtain d where d: "(?o ! i, d) \<in> depRel steps" "(d, ?o ! i) \<in> (depRel steps)\<^sup>*"
    by (blast dest: tranclD)
  then have dd: "(d, d) \<in> (depRel steps)\<^sup>+" by (meson rtrancl_into_trancl1)
  from d(1) have "d \<in> set (allDeps steps (?o ! i))" by (simp add: set_allDeps)
  with finalOrder_facts(3) [of steps] Pi have "d \<in> set (take i ?o)"
    by (auto simp: depsBefore_def)
  then obtain j where j: "j < i" "j < length ?o" "?o ! j = d"
    by (auto simp: in_set_conv_nth)
  with dd least [of j] show False by auto
qed

lemma finalOrder_cycle_short:
  assumes "\<not> acyclic (depRel steps)"
  shows "length (finalOrder steps) < length steps"
proof -
  from assms obtain x where x: "(x, x) \<in> (depRel steps)\<^sup>+" by (auto simp: acyclic_def)
  then obtain y where "(x, y) \<in> depRel steps" by (blast dest: tranclD)
  then have xin: "x \<in> ID ` set steps" by (auto simp: depRel_def)
  from finalOrder_no_cycle_member [OF x] finalOrder_facts(2) [of steps]
  have "set (finalOrder steps) \<subseteq> ID ` set steps - {x}" by auto
  then have "card (set (finalOrder steps)) \<le> card (ID ` set steps - {x})"
    by (intro card_mono) auto
  also have "\<dots> < card (ID ` set steps)" using xin by (intro card_Diff1_less) auto
  also have "\<dots> \<le> length steps" by (metis card_image_le card_length le_trans List.finite_set)
  finally show ?thesis using finalOrder_facts(1) [of steps] by (simp add: distinct_card)
qed

lemma finalOrder_length:
  assumes "distinct (map ID steps)"
    and "\<forall>s\<in>set steps. set (Deps s) \<subseteq> ID ` set steps"
    and "acyclic (depRel steps)"
  shows "length (finalOrder steps) = length steps"
proof -
  from finalOrder_complete [OF assms(2,3)] have "set (finalOrder steps) = set (map ID steps)" by simp
  then have "card (set (finalOrder steps)) = card (set (map ID steps))" by simp
  with finalOrder_facts(1) [of steps] assms(1) show ?thesis
    by (simp add: distinct_card del: set_map)
qed



section \<open>TopologicalSort: the order is a linearization, smallest ready id first\<close>


definition depsResolve :: "PlanStep list \<Rightarrow> bool" where
  "depsResolve steps \<longleftrightarrow> (\<forall>s\<in>set steps. set (Deps s) \<subseteq> ID ` set steps)"

definition linearizes :: "PlanStep list \<Rightarrow> string list \<Rightarrow> bool" where
  "linearizes steps order \<longleftrightarrow>
     (\<forall>s\<in>set steps. \<forall>d\<in>set (Deps s).
        \<exists>i<length order. order ! i = ID s \<and> d \<in> set (take i order))"

definition readyAt :: "PlanStep list \<Rightarrow> string list \<Rightarrow> string \<Rightarrow> bool" where
  "readyAt steps done n \<longleftrightarrow>
     n \<in> ID ` set steps \<and> n \<notin> set done \<and> (\<forall>s\<in>set steps. ID s = n \<longrightarrow> set (Deps s) \<subseteq> set done)"

definition smallestReadyFirst :: "PlanStep list \<Rightarrow> string list \<Rightarrow> bool" where
  "smallestReadyFirst steps order \<longleftrightarrow>
     (\<forall>i<length order. readyAt steps (take i order) (order ! i) \<and>
        (\<forall>n. readyAt steps (take i order) n \<longrightarrow> order ! i \<le> n))"

definition shellStep :: "string \<Rightarrow> string list \<Rightarrow> PlanStep" where
  "shellStep i ds = \<lparr>ID = i, Type = ''shell'', Command = [''true''], Deps = ds, Env = [],
     Timeout = [], Retries = 0\<rparr>"

definition diamond :: "PlanStep list" where
  "diamond = [shellStep ''d'' [''b'', ''c''], shellStep ''c'' [''a''], shellStep ''b'' [''a''],
     shellStep ''a'' []]"

lemma set_allDeps_steps: "set (allDeps steps n) \<subseteq> A \<longleftrightarrow> (\<forall>s\<in>set steps. ID s = n \<longrightarrow> set (Deps s) \<subseteq> A)"
  by (auto simp: allDeps_def)

lemma finalOrder_linearizes:
  assumes "set (finalOrder steps) = ID ` set steps"
  shows "linearizes steps (finalOrder steps)"
  unfolding linearizes_def
proof (intro ballI)
  fix s d assume s: "s \<in> set steps" and d: "d \<in> set (Deps s)"
  from s assms obtain i where i: "i < length (finalOrder steps)" "finalOrder steps ! i = ID s"
    by (metis imageI in_set_conv_nth)
  from finalOrder_facts(3) [of steps] i(1)
  have "set (allDeps steps (finalOrder steps ! i)) \<subseteq> set (take i (finalOrder steps))"
    by (simp add: depsBefore_def)
  with i(2) have "set (allDeps steps (ID s)) \<subseteq> set (take i (finalOrder steps))"
    by simp
  with s d have "d \<in> set (take i (finalOrder steps))"
    by (auto simp: set_allDeps_steps)
  with i show "\<exists>i<length (finalOrder steps). finalOrder steps ! i = ID s \<and> d \<in> set (take i (finalOrder steps))"
    by blast
qed

lemma finalOrder_smallestReadyFirst: "smallestReadyFirst steps (finalOrder steps)"
  unfolding smallestReadyFirst_def
proof (intro allI impI conjI)
  let ?o = "finalOrder steps"
  fix i assume i: "i < length ?o"
  have "?o ! i \<notin> set (take i ?o)"
  proof
    assume "?o ! i \<in> set (take i ?o)"
    then obtain j where "j < i" "?o ! j = ?o ! i" using i by (auto simp: in_set_conv_nth)
    with i finalOrder_facts(1) [of steps] show False by (auto simp: distinct_conv_nth)
  qed
  moreover from i finalOrder_facts(2) [of steps] have "?o ! i \<in> ID ` set steps"
    using nth_mem by blast
  moreover from i finalOrder_facts(3) [of steps]
  have "set (allDeps steps (?o ! i)) \<subseteq> set (take i ?o)" by (auto simp: depsBefore_def)
  ultimately show "readyAt steps (take i ?o) (?o ! i)"
    by (simp add: readyAt_def set_allDeps_steps)
next
  let ?o = "finalOrder steps"
  fix i n assume i: "i < length ?o" and "readyAt steps (take i ?o) n"
  with finalOrder_facts(4) [of steps] show "?o ! i \<le> n"
    unfolding leastReady_def readyAt_def set_allDeps_steps by blast
qed

text \<open>
  C1, as the code has it. For a step list with pairwise distinct ids whose dependency ids
  all name steps of the list and whose dependency relation is acyclic, TopologicalSort
  returns an order, without error, as long as the step list, which holds every step id
  once and in which every step stands after each of its dependencies. For a step list
  whose dependency relation has a cycle it returns an error and no order. For the empty
  list it returns the empty order.
\<close>

theorem TopologicalSort_sorts:
  "(distinct (map ID steps) \<and> depsResolve steps \<and> acyclic (depRel steps) \<longrightarrow>
      (\<exists>order. TopologicalSort steps = Inr order \<and> length order = length steps \<and>
         distinct order \<and> set order = ID ` set steps \<and> linearizes steps order))
   \<and> (\<not> acyclic (depRel steps) \<longrightarrow> (\<exists>e. TopologicalSort steps = Inl e))
   \<and> TopologicalSort [] = Inr []"
proof (intro conjI impI)
  assume a: "distinct (map ID steps) \<and> depsResolve steps \<and> acyclic (depRel steps)"
  then have len: "length (finalOrder steps) = length steps"
    by (intro finalOrder_length) (auto simp: depsResolve_def)
  from a have all: "set (finalOrder steps) = ID ` set steps"
    by (intro finalOrder_complete) (auto simp: depsResolve_def)
  then have lin: "linearizes steps (finalOrder steps)" by (rule finalOrder_linearizes)
  show "\<exists>order. TopologicalSort steps = Inr order \<and> length order = length steps \<and>
         distinct order \<and> set order = ID ` set steps \<and> linearizes steps order"
  proof (cases "steps = []")
    case True
    then show ?thesis by (simp add: TopologicalSort_finalOrder linearizes_def)
  next
    case False
    with len lin all finalOrder_facts(1) [of steps] show ?thesis
      by (simp add: TopologicalSort_finalOrder)
  qed
next
  assume "\<not> acyclic (depRel steps)"
  from finalOrder_cycle_short [OF this] show "\<exists>e. TopologicalSort steps = Inl e"
    by (auto simp: TopologicalSort_finalOrder)
next
  show "TopologicalSort [] = Inr []" by (simp add: TopologicalSort_def)
qed

lemma diamond_sorted: "TopologicalSort diamond = Inr [''a'', ''b'', ''c'', ''d'']"
  by (simp add: TopologicalSort_def diamond_def shellStep_def degOf_def adjOf_def)

lemma diamond_acyclic: "acyclic (depRel diamond)"
proof (rule acyclicI_order [where f = "\<lambda>n. if n = ''a'' then 0 else if n = ''d'' then 2 else (1::nat)"])
  fix a b assume "(a, b) \<in> depRel diamond"
  then show "(if b = ''a'' then 0 else if b = ''d'' then 2 else (1::nat))
      < (if a = ''a'' then 0 else if a = ''d'' then 2 else 1)"
    by (auto simp: depRel_def diamond_def shellStep_def)
qed

text \<open>
  The diamond satisfies the three hypotheses and sorts to a, b, c, d; two steps that depend
  on each other are cyclic and give the cycle error.
\<close>

theorem TopologicalSort_sorts_witness:
  "distinct (map ID diamond) \<and> depsResolve diamond \<and> acyclic (depRel diamond)
   \<and> TopologicalSort diamond = Inr [''a'', ''b'', ''c'', ''d'']
   \<and> linearizes diamond [''a'', ''b'', ''c'', ''d'']
   \<and> \<not> acyclic (depRel [shellStep ''a'' [''b''], shellStep ''b'' [''a'']])
   \<and> TopologicalSort [shellStep ''a'' [''b''], shellStep ''b'' [''a'']] = Inl (CycleDetected 0 2)"
proof -
  have h: "distinct (map ID diamond) \<and> depsResolve diamond \<and> acyclic (depRel diamond)"
    using diamond_acyclic by (simp add: diamond_def shellStep_def depsResolve_def)
  have "(''a'', ''b'') \<in> depRel [shellStep ''a'' [''b''], shellStep ''b'' [''a'']]"
    "(''b'', ''a'') \<in> depRel [shellStep ''a'' [''b''], shellStep ''b'' [''a'']]"
    by (simp_all add: depRel_def shellStep_def)
  then have "(''a'', ''a'') \<in> (depRel [shellStep ''a'' [''b''], shellStep ''b'' [''a'']])\<^sup>+"
    by (meson trancl.simps)
  then have c: "\<not> acyclic (depRel [shellStep ''a'' [''b''], shellStep ''b'' [''a'']])"
    by (auto simp: acyclic_def)
  have e: "TopologicalSort [shellStep ''a'' [''b''], shellStep ''b'' [''a'']] = Inl (CycleDetected 0 2)"
    by (simp add: TopologicalSort_def shellStep_def degOf_def adjOf_def)
  from TopologicalSort_sorts [of diamond] h diamond_sorted
  have "linearizes diamond [''a'', ''b'', ''c'', ''d'']" by auto
  with h c e diamond_sorted TopologicalSort_sorts [of "[shellStep ''a'' [''b''], shellStep ''b'' [''a'']]"]
  show ?thesis by simp
qed

text \<open>
  C1 as stated, without distinct ids, fails: two steps with the id a and no dependencies
  resolve and are acyclic, and the code reports a cycle (one of two steps ordered).
\<close>

theorem TopologicalSort_duplicate_ids_counterexample:
  "depsResolve [shellStep ''a'' [], shellStep ''a'' []]
   \<and> acyclic (depRel [shellStep ''a'' [], shellStep ''a'' []])
   \<and> TopologicalSort [shellStep ''a'' [], shellStep ''a'' []] = Inl (CycleDetected 1 2)"
proof -
  have "depRel [shellStep ''a'' [], shellStep ''a'' []] = {}"
    by (auto simp: depRel_def shellStep_def)
  then have "acyclic (depRel [shellStep ''a'' [], shellStep ''a'' []])"
    by (simp add: acyclic_def)
  then show ?thesis
    by (simp add: depsResolve_def TopologicalSort_def shellStep_def degOf_def adjOf_def)
qed

lemma readyAt_set: "set steps = set steps' \<Longrightarrow> readyAt steps done n = readyAt steps' done n"
  by (simp add: readyAt_def)

lemma smallestReadyFirst_unique:
  assumes "set steps = set steps'" and "smallestReadyFirst steps order"
    and "smallestReadyFirst steps' order'" and "length order = length order'"
  shows "order = order'"
proof -
  have "i \<le> length order \<Longrightarrow> take i order = take i order'" for i
  proof (induction i)
    case 0
    then show ?case by simp
  next
    case (Suc i)
    then have i: "i < length order" "i < length order'" and t: "take i order = take i order'"
      using assms(4) by simp_all
    from assms(2) i(1) have a: "readyAt steps (take i order) (order ! i)"
      "\<And>n. readyAt steps (take i order) n \<Longrightarrow> order ! i \<le> n"
      by (simp_all add: smallestReadyFirst_def)
    from assms(3) i(2) have b: "readyAt steps' (take i order') (order' ! i)"
      "\<And>n. readyAt steps' (take i order') n \<Longrightarrow> order' ! i \<le> n"
      by (simp_all add: smallestReadyFirst_def)
    from a(1) b(2) [of "order ! i"] t readyAt_set [OF assms(1)] have "order' ! i \<le> order ! i"
      by simp
    moreover from b(1) a(2) [of "order' ! i"] t readyAt_set [OF assms(1)] have "order ! i \<le> order' ! i"
      by simp
    ultimately have "order ! i = order' ! i" by simp
    with t i show ?case by (simp add: take_Suc_conv_app_nth)
  qed
  from this [of "length order"] assms(4) show ?thesis by simp
qed

lemma TopologicalSort_Inr:
  "TopologicalSort steps = Inr order \<Longrightarrow> order = finalOrder steps \<and> length order = length steps
     \<or> steps = [] \<and> order = []"
  by (auto simp: TopologicalSort_finalOrder split: if_splits)

text \<open>
  The ready list that TopologicalSort starts from does not depend on the order in which
  the keys of the step map are visited.
\<close>

lemma sort_filter_keys:
  "distinct ks \<Longrightarrow> distinct ks' \<Longrightarrow> set ks = set ks' \<Longrightarrow>
     sort (filter P ks) = sort (filter P ks')"
  by (intro sorted_distinct_set_unique) auto

text \<open>
  C2. In every order that TopologicalSort returns, the id at each position is ready given
  the ids before it (a step of the list, not yet ordered, every dependency ordered) and is
  the smallest such id in the lexicographic order; this covers the initial ready set
  (position 0) and the steps that become ready later. The order is thereby determined:
  two lists of the same steps, in whatever sequence, that both sort give the same order.
  Three steps c, a, b without dependencies sort to a, b, c, and the diamond a\<rightarrow>b, a\<rightarrow>c,
  b\<rightarrow>d, c\<rightarrow>d sorts to a, b, c, d.
\<close>

theorem TopologicalSort_smallest_ready_first:
  "(TopologicalSort steps = Inr order \<longrightarrow> smallestReadyFirst steps order)
   \<and> (set steps = set steps' \<and> length steps = length steps' \<and>
      TopologicalSort steps = Inr order \<and> TopologicalSort steps' = Inr order' \<longrightarrow> order = order')
   \<and> TopologicalSort [shellStep ''c'' [], shellStep ''a'' [], shellStep ''b'' []]
       = Inr [''a'', ''b'', ''c'']
   \<and> TopologicalSort [shellStep ''a'' [], shellStep ''b'' [''a''], shellStep ''c'' [''a''],
         shellStep ''d'' [''b'', ''c'']] = Inr [''a'', ''b'', ''c'', ''d'']"
proof (intro conjI impI)
  assume "TopologicalSort steps = Inr order"
  from TopologicalSort_Inr [OF this] show "smallestReadyFirst steps order"
    using finalOrder_smallestReadyFirst [of steps] by (auto simp: smallestReadyFirst_def)
next
  assume a: "set steps = set steps' \<and> length steps = length steps' \<and>
      TopologicalSort steps = Inr order \<and> TopologicalSort steps' = Inr order'"
  then have s: "set steps = set steps'" and l: "length steps = length steps'"
    and t: "TopologicalSort steps = Inr order" "TopologicalSort steps' = Inr order'" by simp_all
  from TopologicalSort_Inr [OF t(1)] have 1: "smallestReadyFirst steps order" "length order = length steps"
    using finalOrder_smallestReadyFirst [of steps] by (auto simp: smallestReadyFirst_def)
  from TopologicalSort_Inr [OF t(2)] have 2: "smallestReadyFirst steps' order'" "length order' = length steps'"
    using finalOrder_smallestReadyFirst [of steps'] by (auto simp: smallestReadyFirst_def)
  from 1(2) 2(2) l have "length order = length order'" by simp
  from smallestReadyFirst_unique [OF s 1(1) 2(1) this] show "order = order'" .
qed (simp_all add: TopologicalSort_def shellStep_def degOf_def adjOf_def)

text \<open>The general parts of C2 at the diamond, listed in two other input sequences.\<close>

theorem TopologicalSort_smallest_ready_first_witness:
  "TopologicalSort diamond = Inr [''a'', ''b'', ''c'', ''d'']
   \<and> smallestReadyFirst diamond [''a'', ''b'', ''c'', ''d'']
   \<and> set diamond = set (rev diamond) \<and> length diamond = length (rev diamond)
   \<and> TopologicalSort (rev diamond) = Inr [''a'', ''b'', ''c'', ''d'']"
proof -
  have "TopologicalSort (rev diamond) = Inr [''a'', ''b'', ''c'', ''d'']"
    by (simp add: TopologicalSort_def diamond_def shellStep_def degOf_def adjOf_def)
  with TopologicalSort_smallest_ready_first [of diamond "[''a'', ''b'', ''c'', ''d'']" "rev diamond" "[''a'', ''b'', ''c'', ''d'']"]
    diamond_sorted
  show ?thesis by simp
qed

section \<open>Planner: the plan\<close>

record Plan =
  Version :: int
  ProjectName :: string
  Profile :: string
  ConfigHash :: string
  CreatedAt :: string
  Steps :: "PlanStep list"
  Order :: "string list"

section \<open>Executor: options, results and the environment\<close>

text \<open>
  \<^verbatim>\<open>Options\<close> and \<^verbatim>\<open>StepResult\<close> of package \<^verbatim>\<open>exec\<close>. A \<^verbatim>\<open>time.Duration\<close> is its number of
  nanoseconds; the field \<^verbatim>\<open>Duration\<close> of a result, which the source fills with
  \<^verbatim>\<open>d.String()\<close>, holds that \<open>d\<close> here (\<^verbatim>\<open>"0s"\<close> is \<open>0\<close>).
\<close>

record Options =
  OutDir :: string
  DefaultTimeout :: int
  Jobs :: int
  FailFast :: bool

record StepResult =
  ID :: string
  Status :: string
  Error :: string
  LogFile :: string
  Duration :: int
  ExitCode :: int
  Attempt :: int

record ExecutionResult =
  Status :: string
  Duration :: int
  Steps :: "StepResult list"

text \<open>
  What \<^verbatim>\<open>exec.CommandContext\<close> is given: the argument vector, the environment (when the
  step sets one), the log file that receives both output streams, and the deadline of
  the context (\<open>None\<close> when the step context is passed on unchanged).
\<close>

record Cmd =
  Argv :: "string list"
  CmdEnv :: "string list option"
  Log :: "string option"
  Deadline :: "int option"

text \<open>What \<^verbatim>\<open>cmd.Run()\<close> returns: nil, an \<^verbatim>\<open>*exec.ExitError\<close> with its exit code, or another error.\<close>

datatype run_outcome = RunOk | ExitError int string | RunError string

text \<open>
  Everything outside the repository that a step run reads: the Go library functions
  \<^verbatim>\<open>time.ParseDuration\<close> and \<^verbatim>\<open>os.Environ\<close>, the path
  \<^verbatim>\<open>filepath.Join(outDir, fmt.Sprintf("%s.%d.log", id, attempt))\<close>, the file system
  (\<^verbatim>\<open>os.Create\<close>, with the text of its error if it fails), the outcome of \<^verbatim>\<open>cmd.Run()\<close>
  on a given attempt, whether \<^verbatim>\<open>ctx.Err()\<close> is non-nil when it is read after a given
  attempt, and the successive readings of the clock.
\<close>

record World =
  ParseDuration :: "string \<Rightarrow> string + int"
  Environ :: "string list"
  LogPath :: "string \<Rightarrow> string \<Rightarrow> int \<Rightarrow> string"
  Create :: "string \<Rightarrow> string option"
  Run :: "int \<Rightarrow> Cmd \<Rightarrow> run_outcome"
  CtxErr :: "int \<Rightarrow> bool"
  Now :: "nat \<Rightarrow> int"

text \<open>
  What a step run leaves behind: how many clock readings it took, the attempt numbers
  \<^verbatim>\<open>executeStepAttempt\<close> was called with, each with the number of the clock reading
  \<^verbatim>\<open>attemptStart\<close> taken right before the call, and the commands \<^verbatim>\<open>cmd.Run()\<close> was
  called on.
\<close>

record Trace =
  reads :: nat
  calls :: "(int \<times> nat) list"
  ran :: "Cmd list"

text \<open>The trace at the start of a step run.\<close>

definition emptyTrace :: Trace where
  "emptyTrace = \<lparr>reads = 0, calls = [], ran = []\<rparr>"

section \<open>Executor: one attempt\<close>

definition createLog :: "World \<Rightarrow> PlanStep \<Rightarrow> Options \<Rightarrow> int \<Rightarrow> string + string option" where
  "createLog w step opts attempt =
     (if OutDir opts \<noteq> [] then
        (let logPath = LogPath w (OutDir opts) (PlanStep.ID step) attempt
         in case Create w logPath of Some err \<Rightarrow> Inl err | None \<Rightarrow> Inr (Some logPath))
      else Inr None)"

text \<open>The timeout the attempt settles on: the default, or the parsed step timeout.\<close>

definition stepTimeout :: "World \<Rightarrow> PlanStep \<Rightarrow> Options \<Rightarrow> string + int" where
  "stepTimeout w step opts =
     (if PlanStep.Timeout step \<noteq> [] then ParseDuration w (PlanStep.Timeout step)
      else Inr (DefaultTimeout opts))"

text \<open>
  The command that is run. A positive timeout wraps the context in a deadline and builds
  the command again, with the same fields, on the new context.
\<close>

definition buildCmd :: "World \<Rightarrow> PlanStep \<Rightarrow> string option \<Rightarrow> int \<Rightarrow> Cmd" where
  "buildCmd w step logFile timeout =
     \<lparr>Argv = PlanStep.Command step,
      CmdEnv = (if length (PlanStep.Env step) > 0
                then Some (Environ w @ map (\<lambda>(k, v). k @ ''='' @ v) (PlanStep.Env step))
                else None),
      Log = logFile,
      Deadline = (if timeout > 0 then Some timeout else None)\<rparr>"

definition executeStepAttempt :: "World \<Rightarrow> PlanStep \<Rightarrow> Options \<Rightarrow> int \<Rightarrow> Trace \<Rightarrow>
    StepResult \<times> Trace" where
  "executeStepAttempt w step opts attempt tr =
     (let result = \<lparr>StepResult.ID = PlanStep.ID step, Status = ''failed'', Error = [], LogFile = [],
            Duration = 0, ExitCode = 0, Attempt = attempt\<rparr>
      in if PlanStep.Type step \<noteq> ''shell''
         then (result\<lparr>Error := ''unsupported step type: '' @ PlanStep.Type step\<rparr>, tr)
         else if length (PlanStep.Command step) = 0
         then (result\<lparr>Error := ''empty command''\<rparr>, tr)
         else case createLog w step opts attempt of
           Inl err \<Rightarrow> (result\<lparr>Error := ''create log file: '' @ err\<rparr>, tr)
         | Inr logFile \<Rightarrow>
             (let result = (case logFile of None \<Rightarrow> result | Some logPath \<Rightarrow> result\<lparr>LogFile := logPath\<rparr>)
              in case stepTimeout w step opts of
                Inl err \<Rightarrow> (result\<lparr>Error := ''invalid timeout: '' @ err\<rparr>, tr)
              | Inr timeout \<Rightarrow>
                  (let cmd = buildCmd w step logFile timeout;
                       tr' = tr\<lparr>ran := ran tr @ [cmd]\<rparr>
                   in case Run w attempt cmd of
                        ExitError code msg \<Rightarrow> (result\<lparr>ExitCode := code, Error := msg\<rparr>, tr')
                      | RunError msg \<Rightarrow> (result\<lparr>ExitCode := - 1, Error := msg\<rparr>, tr')
                      | RunOk \<Rightarrow> (result\<lparr>StepResult.Status := ''success'', ExitCode := 0\<rparr>, tr'))))"

section \<open>Executor: the retry loop\<close>

text \<open>
  \<^verbatim>\<open>maxAttempts := step.Retries + 1\<close> on Go's 64-bit \<^verbatim>\<open>int\<close>: the sum wraps at the largest
  value. The loop counter is kept unbounded; it would wrap only after \<open>2^63 - 1\<close> failed
  attempts.
\<close>

definition maxAttemptsOf :: "PlanStep \<Rightarrow> int" where
  "maxAttemptsOf step =
     (let maxAttempts = (if PlanStep.Retries step = 2 ^ 63 - 1 then - (2 ^ 63)
                         else PlanStep.Retries step + 1)
      in if maxAttempts < 1 then 1 else maxAttempts)"

text \<open>
  The loop \<^verbatim>\<open>for attempt := 1; attempt <= maxAttempts; attempt++\<close>. It hands back
  \<^verbatim>\<open>lastResult\<close>, or the successful result that the source returns from inside the loop;
  in both cases \<^verbatim>\<open>executeStep\<close> then overwrites the duration with the time since the step
  started. The pause before a retry is a \<^verbatim>\<open>select\<close> whose two branches both go on with
  the next iteration (the \<^verbatim>\<open>break\<close> in it leaves the \<^verbatim>\<open>select\<close> only).
\<close>

function attemptLoop :: "World \<Rightarrow> PlanStep \<Rightarrow> Options \<Rightarrow> int \<Rightarrow> int \<Rightarrow> StepResult option \<Rightarrow>
    Trace \<Rightarrow> StepResult option \<times> Trace" where
  "attemptLoop w step opts maxAttempts attempt lastResult tr =
     (if attempt \<le> maxAttempts then
        (let attemptStart = Now w (reads tr);
             tr1 = tr\<lparr>reads := reads tr + 1, calls := calls tr @ [(attempt, reads tr)]\<rparr>
         in case executeStepAttempt w step opts attempt tr1 of (result, tr2) \<Rightarrow>
           (let result = result\<lparr>StepResult.Duration := Now w (reads tr2) - attemptStart\<rparr>;
                tr3 = tr2\<lparr>reads := reads tr2 + 1\<rparr>
            in if StepResult.Status result = ''success'' then (Some result, tr3)
               else if CtxErr w attempt then (Some result, tr3)
               else attemptLoop w step opts maxAttempts (attempt + 1) (Some result) tr3))
      else (lastResult, tr))"
  by pat_completeness auto
termination
  by (relation "measure (\<lambda>(w, step, opts, maxAttempts, attempt, lastResult, tr).
        nat (maxAttempts + 1 - attempt))") auto

declare attemptLoop.simps [simp del]

text \<open>
  \<^verbatim>\<open>executeStep\<close>. \<open>None\<close> stands for the nil dereference that
  \<^verbatim>\<open>lastResult.Duration = \<dots>\<close> would be had the loop not run at all.
\<close>

definition executeStep :: "World \<Rightarrow> PlanStep \<Rightarrow> Options \<Rightarrow> Trace \<Rightarrow> StepResult option \<times> Trace" where
  "executeStep w step opts tr =
     (let maxAttempts = maxAttemptsOf step;
          stepStart = Now w (reads tr);
          tr0 = tr\<lparr>reads := reads tr + 1\<rparr>
      in case attemptLoop w step opts maxAttempts 1 None tr0 of
           (None, tr') \<Rightarrow> (None, tr')
         | (Some result, tr') \<Rightarrow>
             (Some (result\<lparr>StepResult.Duration := Now w (reads tr') - stepStart\<rparr>),
              tr'\<lparr>reads := reads tr' + 1\<rparr>))"

section \<open>Executor: what the retry loop does\<close>

text \<open>The result of an attempt does not depend on the trace it is started with.\<close>

definition attemptOutcome :: "World \<Rightarrow> PlanStep \<Rightarrow> Options \<Rightarrow> int \<Rightarrow> StepResult" where
  "attemptOutcome w step opts attempt =
     fst (executeStepAttempt w step opts attempt \<lparr>reads = 0, calls = [], ran = []\<rparr>)"

lemma executeStepAttempt_fst:
  "fst (executeStepAttempt w step opts attempt tr) = attemptOutcome w step opts attempt"
  by (simp add: attemptOutcome_def executeStepAttempt_def Let_def
      split: sum.splits run_outcome.splits option.splits)

lemma executeStepAttempt_trace:
  "reads (snd (executeStepAttempt w step opts attempt tr)) = reads tr"
  "calls (snd (executeStepAttempt w step opts attempt tr)) = calls tr"
  by (simp_all add: executeStepAttempt_def Let_def split: sum.splits run_outcome.splits option.splits)

lemma attemptOutcome_fields:
  "StepResult.Attempt (attemptOutcome w step opts attempt) = attempt"
  "StepResult.ID (attemptOutcome w step opts attempt) = PlanStep.ID step"
  "StepResult.Status (attemptOutcome w step opts attempt) = ''success'' \<or>
   StepResult.Status (attemptOutcome w step opts attempt) = ''failed''"
  by (simp_all add: attemptOutcome_def executeStepAttempt_def Let_def
      split: sum.splits run_outcome.splits option.splits)

lemma upto_snoc: "a \<le> n + 1 \<Longrightarrow> [a..n + 1] = [a..n] @ [n + 1]"
  by (simp add: upto_rec2)

lemma attemptLoop_spec:
  "attempt \<le> maxAttempts \<Longrightarrow>
   attemptLoop w step opts maxAttempts attempt lastResult tr = (res, tr') \<Longrightarrow>
     \<exists>n r. attempt \<le> n \<and> n \<le> maxAttempts \<and> res = Some r \<and>
       calls tr' = calls tr @ map (\<lambda>j. (j, reads tr + 2 * nat (j - attempt))) [attempt..n] \<and>
       reads tr' = reads tr + 2 * nat (n - attempt + 1) \<and>
       StepResult.Attempt r = n \<and>
       StepResult.ID r = PlanStep.ID step \<and>
       StepResult.Status r = StepResult.Status (attemptOutcome w step opts n) \<and>
       (\<forall>j. attempt \<le> j \<and> j < n \<longrightarrow>
          StepResult.Status (attemptOutcome w step opts j) \<noteq> ''success'' \<and> \<not> CtxErr w j) \<and>
       (n < maxAttempts \<longrightarrow>
          StepResult.Status (attemptOutcome w step opts n) = ''success'' \<or> CtxErr w n)"
proof (induction w step opts maxAttempts attempt lastResult tr arbitrary: res tr'
    rule: attemptLoop.induct)
  case (1 w step opts maxAttempts attempt lastResult tr)
  let ?tr1 = "tr\<lparr>reads := reads tr + 1, calls := calls tr @ [(attempt, reads tr)]\<rparr>"
  obtain result tr2 where e: "executeStepAttempt w step opts attempt ?tr1 = (result, tr2)"
    by (cases "executeStepAttempt w step opts attempt ?tr1")
  from e executeStepAttempt_fst [of w step opts attempt ?tr1]
  have result: "result = attemptOutcome w step opts attempt" by simp
  from e executeStepAttempt_trace [of w step opts attempt ?tr1]
  have tr2: "reads tr2 = reads tr + 1" "calls tr2 = calls tr @ [(attempt, reads tr)]"
    by simp_all
  let ?result = "result\<lparr>StepResult.Duration := Now w (reads tr2) - Now w (reads tr)\<rparr>"
  let ?tr3 = "tr2\<lparr>reads := reads tr2 + 1\<rparr>"
  have flds: "StepResult.Attempt ?result = attempt" "StepResult.ID ?result = PlanStep.ID step"
    "StepResult.Status ?result = StepResult.Status (attemptOutcome w step opts attempt)"
    by (simp_all add: result attemptOutcome_fields)
  show ?case
  proof (cases "StepResult.Status ?result = ''success'' \<or> CtxErr w attempt")
    case True
    with "1.prems" e have "res = Some ?result" "tr' = ?tr3"
      by (auto simp: attemptLoop.simps [of w step opts maxAttempts attempt] Let_def split: if_splits)
    with True flds tr2 "1.prems"(1) show ?thesis
      by (intro exI [of _ attempt] exI [of _ ?result]) auto
  next
    case False
    with "1.prems" e
    have rec: "attemptLoop w step opts maxAttempts (attempt + 1) (Some ?result) ?tr3 = (res, tr')"
      by (simp add: attemptLoop.simps [of w step opts maxAttempts attempt] Let_def)
    show ?thesis
    proof (cases "attempt + 1 \<le> maxAttempts")
      case le: True
      from False have ns: "StepResult.Status ?result \<noteq> ''success''" "\<not> CtxErr w attempt" by auto
      from "1.IH" [OF "1.prems"(1) refl refl e [symmetric] refl refl ns le rec]
      obtain n r where n: "attempt + 1 \<le> n" "n \<le> maxAttempts" "res = Some r"
        "calls tr' = calls ?tr3 @ map (\<lambda>j. (j, reads ?tr3 + 2 * nat (j - (attempt + 1)))) [attempt + 1..n]"
        "reads tr' = reads ?tr3 + 2 * nat (n - (attempt + 1) + 1)"
        "StepResult.Attempt r = n" "StepResult.ID r = PlanStep.ID step"
        "StepResult.Status r = StepResult.Status (attemptOutcome w step opts n)"
        "\<forall>j. attempt + 1 \<le> j \<and> j < n \<longrightarrow>
          StepResult.Status (attemptOutcome w step opts j) \<noteq> ''success'' \<and> \<not> CtxErr w j"
        "n < maxAttempts \<longrightarrow>
          StepResult.Status (attemptOutcome w step opts n) = ''success'' \<or> CtxErr w n"
        by blast
      have u: "[attempt..n] = attempt # [attempt + 1..n]" using n(1) by (simp add: upto_rec1)
      have "map (\<lambda>j. (j, reads ?tr3 + 2 * nat (j - (attempt + 1)))) [attempt + 1..n]
          = map (\<lambda>j. (j, reads tr + 2 * nat (j - attempt))) [attempt + 1..n]"
      proof (rule map_cong [OF refl])
        fix j assume "j \<in> set [attempt + 1..n]"
        then have "attempt + 1 \<le> j" by simp
        then have "nat (j - attempt) = nat (j - (attempt + 1)) + 1" by arith
        with tr2 show "(j, reads ?tr3 + 2 * nat (j - (attempt + 1))) = (j, reads tr + 2 * nat (j - attempt))"
          by simp
      qed
      with n(4) tr2 u
      have c: "calls tr' = calls tr @ map (\<lambda>j. (j, reads tr + 2 * nat (j - attempt))) [attempt..n]"
        by simp
      from n(5) tr2 n(1) have rd: "reads tr' = reads tr + 2 * nat (n - attempt + 1)"
        by (simp add: nat_add_distrib nat_diff_distrib) 
      have "\<forall>j. attempt \<le> j \<and> j < n \<longrightarrow>
          StepResult.Status (attemptOutcome w step opts j) \<noteq> ''success'' \<and> \<not> CtxErr w j"
      proof (intro allI impI)
        fix j assume j: "attempt \<le> j \<and> j < n"
        show "StepResult.Status (attemptOutcome w step opts j) \<noteq> ''success'' \<and> \<not> CtxErr w j"
        proof (cases "j = attempt")
          case True
          with ns flds show ?thesis by simp
        next
          case False
          with j n(9) show ?thesis by auto
        qed
      qed
      with n c rd show ?thesis
        by (intro exI [of _ n] exI [of _ r]) auto
    next
      case gt: False
      with rec have "res = Some ?result" "tr' = ?tr3"
        by (simp_all add: attemptLoop.simps [of w step opts maxAttempts "attempt + 1"])
      with gt flds tr2 "1.prems"(1) show ?thesis
        by (intro exI [of _ attempt] exI [of _ ?result]) auto
    qed
  qed
qed

lemma maxAttemptsOf_bounds:
  "1 \<le> maxAttemptsOf step" "maxAttemptsOf step \<le> max (PlanStep.Retries step + 1) 1"
  by (simp_all add: maxAttemptsOf_def Let_def)

lemma executeStep_spec:
  assumes "executeStep w step opts tr = (res, tr')"
  shows "\<exists>r n. res = Some r \<and> 1 \<le> n \<and> n \<le> maxAttemptsOf step \<and>
       calls tr' = calls tr @ map (\<lambda>j. (j, reads tr + 2 * nat j - 1)) [1..n] \<and>
       reads tr' = reads tr + 2 * nat n + 2 \<and>
       StepResult.Attempt r = n \<and> StepResult.ID r = PlanStep.ID step \<and>
       StepResult.Status r = StepResult.Status (attemptOutcome w step opts n) \<and>
       StepResult.Duration r = Now w (reads tr + 2 * nat n + 1) - Now w (reads tr) \<and>
       (\<forall>j. 1 \<le> j \<and> j < n \<longrightarrow>
          StepResult.Status (attemptOutcome w step opts j) \<noteq> ''success'' \<and> \<not> CtxErr w j) \<and>
       (n < maxAttemptsOf step \<longrightarrow>
          StepResult.Status (attemptOutcome w step opts n) = ''success'' \<or> CtxErr w n)"
proof -
  let ?tr0 = "tr\<lparr>reads := reads tr + 1\<rparr>"
  obtain last tr1 where l: "attemptLoop w step opts (maxAttemptsOf step) 1 None ?tr0 = (last, tr1)"
    by (cases "attemptLoop w step opts (maxAttemptsOf step) 1 None ?tr0")
  from attemptLoop_spec [OF maxAttemptsOf_bounds(1) l]
  obtain n r where n: "1 \<le> n" "n \<le> maxAttemptsOf step" "last = Some r"
    "calls tr1 = calls ?tr0 @ map (\<lambda>j. (j, reads ?tr0 + 2 * nat (j - 1))) [1..n]"
    "reads tr1 = reads ?tr0 + 2 * nat (n - 1 + 1)"
    "StepResult.Attempt r = n" "StepResult.ID r = PlanStep.ID step"
    "StepResult.Status r = StepResult.Status (attemptOutcome w step opts n)"
    "\<forall>j. 1 \<le> j \<and> j < n \<longrightarrow>
          StepResult.Status (attemptOutcome w step opts j) \<noteq> ''success'' \<and> \<not> CtxErr w j"
    "n < maxAttemptsOf step \<longrightarrow>
          StepResult.Status (attemptOutcome w step opts n) = ''success'' \<or> CtxErr w n"
    by blast
  let ?r = "r\<lparr>StepResult.Duration := Now w (reads tr1) - Now w (reads tr)\<rparr>"
  from assms l n(3) have res: "res = Some ?r" "tr' = tr1\<lparr>reads := reads tr1 + 1\<rparr>"
    by (simp_all add: executeStep_def Let_def)
  have "map (\<lambda>j. (j, reads ?tr0 + 2 * nat (j - 1))) [1..n]
      = map (\<lambda>j. (j, reads tr + 2 * nat j - 1)) [1..n]"
  proof (rule map_cong [OF refl])
    fix j assume "j \<in> set [1..n]"
    then have "1 \<le> j" by simp
    then have "nat j = nat (j - 1) + 1" by arith
    then show "(j, reads ?tr0 + 2 * nat (j - 1)) = (j, reads tr + 2 * nat j - 1)" by simp
  qed
  with n(4) have c: "calls tr1 = calls tr @ map (\<lambda>j. (j, reads tr + 2 * nat j - 1)) [1..n]" by simp
  from n(1) have "nat (n - 1 + 1) = nat n" by simp
  with n(5) have rd: "reads tr1 = reads tr + 2 * nat n + 1" by simp
  from n(1,2,3,6,7,8,9,10) res c rd show ?thesis
    by (intro exI [of _ ?r] exI [of _ n]) simp
qed

text \<open>
  C5. Whatever the environment does, a run of one step calls \<^verbatim>\<open>executeStepAttempt\<close> with
  the attempt numbers 1, 2, \<dots>, n one after the other, where n is at least 1 and at most
  max(retries + 1, 1); none of the attempts before the last was successful, so a
  successful attempt is the last one and its result is returned, with the number n. The
  run reads the clock 2n + 2 times: once when it starts, once right before and once right
  after each attempt, and once when it returns. Counting its readings from 0, attempt j
  is called right after reading 2j - 1, as the trace records, and the duration of the
  result is reading 2n + 1 minus reading 0: the last reading minus the first, so that it
  spans every attempt and every pause between them, not the last attempt alone. With retries = 1, a first attempt that fails (the
  context still live after it, so that the command is invoked a second time) and a second
  that succeeds, the result is success with attempt 2.
\<close>

theorem executeStep_retries:
  "executeStep w step opts tr = (res, tr') \<longrightarrow>
     (\<exists>r n. res = Some r \<and> 1 \<le> n \<and> n \<le> max (PlanStep.Retries step + 1) 1 \<and>
        calls tr' = calls tr @ map (\<lambda>j. (j, reads tr + 2 * nat j - 1)) [1..n] \<and>
        reads tr' = reads tr + 2 * nat n + 2 \<and>
        StepResult.Attempt r = n \<and>
        (\<forall>j. 1 \<le> j \<and> j < n \<longrightarrow> StepResult.Status (attemptOutcome w step opts j) \<noteq> ''success'') \<and>
        StepResult.Status r = StepResult.Status (attemptOutcome w step opts n) \<and>
        StepResult.Duration r = Now w (reads tr + 2 * nat n + 1) - Now w (reads tr) \<and>
        (PlanStep.Retries step = 1 \<and>
         StepResult.Status (attemptOutcome w step opts 1) \<noteq> ''success'' \<and> \<not> CtxErr w 1 \<and>
         StepResult.Status (attemptOutcome w step opts 2) = ''success'' \<longrightarrow>
           StepResult.Status r = ''success'' \<and> StepResult.Attempt r = 2))"
proof
  assume "executeStep w step opts tr = (res, tr')"
  from executeStep_spec [OF this]
  obtain r n where n: "res = Some r" "1 \<le> n" "n \<le> maxAttemptsOf step"
    "calls tr' = calls tr @ map (\<lambda>j. (j, reads tr + 2 * nat j - 1)) [1..n]"
    "reads tr' = reads tr + 2 * nat n + 2"
    "StepResult.Attempt r = n"
    "StepResult.Status r = StepResult.Status (attemptOutcome w step opts n)"
    "StepResult.Duration r = Now w (reads tr + 2 * nat n + 1) - Now w (reads tr)"
    "\<forall>j. 1 \<le> j \<and> j < n \<longrightarrow>
          StepResult.Status (attemptOutcome w step opts j) \<noteq> ''success'' \<and> \<not> CtxErr w j"
    "n < maxAttemptsOf step \<longrightarrow>
          StepResult.Status (attemptOutcome w step opts n) = ''success'' \<or> CtxErr w n"
    by blast
  have ex: "StepResult.Status r = ''success'' \<and> StepResult.Attempt r = 2"
    if h: "PlanStep.Retries step = 1" "StepResult.Status (attemptOutcome w step opts 1) \<noteq> ''success''"
      "\<not> CtxErr w 1" "StepResult.Status (attemptOutcome w step opts 2) = ''success''"
  proof -
    from h(1) have m: "maxAttemptsOf step = 2" by (simp add: maxAttemptsOf_def)
    with n(2,3,10) h(2,3) have "n = 2" by (cases "n = 1") auto
    with n(6,7) h(4) show ?thesis by simp
  qed
  from n(3) maxAttemptsOf_bounds(2) [of step] have "n \<le> max (PlanStep.Retries step + 1) 1" by simp
  with n ex show "\<exists>r n. res = Some r \<and> 1 \<le> n \<and> n \<le> max (PlanStep.Retries step + 1) 1 \<and>
        calls tr' = calls tr @ map (\<lambda>j. (j, reads tr + 2 * nat j - 1)) [1..n] \<and>
        reads tr' = reads tr + 2 * nat n + 2 \<and>
        StepResult.Attempt r = n \<and>
        (\<forall>j. 1 \<le> j \<and> j < n \<longrightarrow> StepResult.Status (attemptOutcome w step opts j) \<noteq> ''success'') \<and>
        StepResult.Status r = StepResult.Status (attemptOutcome w step opts n) \<and>
        StepResult.Duration r = Now w (reads tr + 2 * nat n + 1) - Now w (reads tr) \<and>
        (PlanStep.Retries step = 1 \<and>
         StepResult.Status (attemptOutcome w step opts 1) \<noteq> ''success'' \<and> \<not> CtxErr w 1 \<and>
         StepResult.Status (attemptOutcome w step opts 2) = ''success'' \<longrightarrow>
           StepResult.Status r = ''success'' \<and> StepResult.Attempt r = 2)"
    by (intro exI [of _ r] exI [of _ n]) blast
qed
text \<open>
  An environment for the examples: no output directory is used, log files can be created,
  the context stays live, the clock advances by a millisecond per reading, and
  \<^verbatim>\<open>time.ParseDuration\<close> is given by its values at the two strings the examples use.
  The command fails with exit status 1 on the first attempt and succeeds afterwards.
\<close>

definition durationTable :: "string \<Rightarrow> string + int" where
  "durationTable s =
     (if s = ''0s'' then Inr 0
      else if s = ''30s'' then Inr 30000000000
      else Inl ''time: invalid duration'')"

definition flakyWorld :: World where
  "flakyWorld = \<lparr>ParseDuration = durationTable, Environ = [], LogPath = (\<lambda>dir id attempt. []),
     Create = (\<lambda>path. None),
     Run = (\<lambda>attempt cmd. if attempt = 1 then ExitError 1 ''exit status 1'' else RunOk),
     CtxErr = (\<lambda>attempt. False), Now = (\<lambda>n. 1000000 * int n)\<rparr>"

definition retryStep :: PlanStep where
  "retryStep = \<lparr>PlanStep.ID = ''retry-test'', Type = ''shell'', Command = [''sh'', ''-c'', ''test -f marker''],
     Deps = [], Env = [], Timeout = [], Retries = 1\<rparr>"

definition testOptions :: Options where
  "testOptions = \<lparr>OutDir = [], DefaultTimeout = 10000000000, Jobs = 1, FailFast = True\<rparr>"

lemma retryStep_outcomes:
  "StepResult.Status (attemptOutcome flakyWorld retryStep testOptions 1) = ''failed''"
  "StepResult.Status (attemptOutcome flakyWorld retryStep testOptions 2) = ''success''"
  by (simp_all add: attemptOutcome_def executeStepAttempt_def createLog_def stepTimeout_def
      buildCmd_def flakyWorld_def retryStep_def testOptions_def)

text \<open>
  The retry test of the repository: retries = 1, failure, then success. The run reads the
  clock six times, the attempts are called after the readings number 1 and 3, and the
  duration is the sixth reading minus the first: 5 ms on this clock, where the second
  attempt alone took 1 ms.
\<close>

theorem executeStep_retries_witness:
  "\<exists>r tr'. executeStep flakyWorld retryStep testOptions emptyTrace = (Some r, tr') \<and>
     calls tr' = [(1, 1), (2, 3)] \<and> reads tr' = 6 \<and>
     StepResult.Status r = ''success'' \<and> StepResult.Attempt r = 2 \<and>
     StepResult.Duration r = 5000000"
proof -
  obtain res tr' where e: "executeStep flakyWorld retryStep testOptions emptyTrace = (res, tr')"
    by (cases "executeStep flakyWorld retryStep testOptions emptyTrace")
  have h: "PlanStep.Retries retryStep = 1 \<and>
      StepResult.Status (attemptOutcome flakyWorld retryStep testOptions 1) \<noteq> ''success'' \<and>
      \<not> CtxErr flakyWorld 1 \<and>
      StepResult.Status (attemptOutcome flakyWorld retryStep testOptions 2) = ''success''"
    by (simp add: retryStep_outcomes) (simp add: retryStep_def flakyWorld_def)
  from executeStep_retries [of flakyWorld retryStep testOptions emptyTrace res tr'] e h
  obtain r n where n: "res = Some r"
    "calls tr' = calls emptyTrace @ map (\<lambda>j. (j, reads emptyTrace + 2 * nat j - 1)) [1..n]"
    "reads tr' = reads emptyTrace + 2 * nat n + 2"
    "StepResult.Attempt r = n" "StepResult.Status r = ''success'' \<and> StepResult.Attempt r = 2"
    "StepResult.Duration r
       = Now flakyWorld (reads emptyTrace + 2 * nat n + 1) - Now flakyWorld (reads emptyTrace)"
    by blast
  from n(4,5) have n2: "n = 2" by simp
  have "[1..2] = [1, 2::int]" by (simp add: upto_rec1)
  with n n2 e show ?thesis by (simp add: emptyTrace_def flakyWorld_def)
qed

section \<open>Executor: steps that cannot run\<close>









section \<open>Executor: the timeout of an attempt\<close>

lemma executeStepAttempt_runs:
  assumes "PlanStep.Type step = ''shell''" "PlanStep.Command step \<noteq> []"
    and "createLog w step opts attempt = Inr logFile"
    and "stepTimeout w step opts = Inr timeout"
  shows "ran (snd (executeStepAttempt w step opts attempt tr))
      = ran tr @ [buildCmd w step logFile timeout]"
    and "StepResult.Status (fst (executeStepAttempt w step opts attempt tr))
      = (if Run w attempt (buildCmd w step logFile timeout) = RunOk then ''success'' else ''failed'')"
  using assms
  by (auto simp: executeStepAttempt_def Let_def split: run_outcome.splits option.splits)

text \<open>
  C6, as the code has it. Take an attempt at a shell step with a command whose log file,
  if any, could be created. An empty timeout field selects the default timeout, a
  non-empty one that parses selects the parsed value, whatever the default is, and a
  non-empty one that does not parse fails the attempt before anything is run. The
  selected timeout becomes the deadline of the one command that is run exactly when it
  is positive; a timeout that is zero or negative, be it the parsed field or the default,
  leaves the command without a deadline. An attempt whose command run ends with an error,
  as it does when the deadline passes, is a failed attempt.
\<close>

theorem executeStepAttempt_timeout:
  "PlanStep.Type step = ''shell'' \<and> PlanStep.Command step \<noteq> [] \<and>
   createLog w step opts attempt = Inr logFile \<longrightarrow>
     (case stepTimeout w step opts of
        Inl err \<Rightarrow>
          PlanStep.Timeout step \<noteq> [] \<and> ParseDuration w (PlanStep.Timeout step) = Inl err \<and>
          ran (snd (executeStepAttempt w step opts attempt tr)) = ran tr \<and>
          StepResult.Status (fst (executeStepAttempt w step opts attempt tr)) = ''failed'' \<and>
          StepResult.Error (fst (executeStepAttempt w step opts attempt tr)) = ''invalid timeout: '' @ err
      | Inr timeout \<Rightarrow>
          (PlanStep.Timeout step = [] \<longrightarrow> timeout = DefaultTimeout opts) \<and>
          (PlanStep.Timeout step \<noteq> [] \<longrightarrow> ParseDuration w (PlanStep.Timeout step) = Inr timeout) \<and>
          (\<exists>cmd. ran (snd (executeStepAttempt w step opts attempt tr)) = ran tr @ [cmd] \<and>
             Deadline cmd = (if timeout > 0 then Some timeout else None) \<and>
             (Run w attempt cmd \<noteq> RunOk \<longrightarrow>
                StepResult.Status (fst (executeStepAttempt w step opts attempt tr)) = ''failed'') \<and>
             (Run w attempt cmd = RunOk \<longrightarrow>
                StepResult.Status (fst (executeStepAttempt w step opts attempt tr)) = ''success'')))"
proof (intro impI, elim conjE)
  assume a: "PlanStep.Type step = ''shell''" "PlanStep.Command step \<noteq> []"
    "createLog w step opts attempt = Inr logFile"
  show "case stepTimeout w step opts of
        Inl err \<Rightarrow>
          PlanStep.Timeout step \<noteq> [] \<and> ParseDuration w (PlanStep.Timeout step) = Inl err \<and>
          ran (snd (executeStepAttempt w step opts attempt tr)) = ran tr \<and>
          StepResult.Status (fst (executeStepAttempt w step opts attempt tr)) = ''failed'' \<and>
          StepResult.Error (fst (executeStepAttempt w step opts attempt tr)) = ''invalid timeout: '' @ err
      | Inr timeout \<Rightarrow>
          (PlanStep.Timeout step = [] \<longrightarrow> timeout = DefaultTimeout opts) \<and>
          (PlanStep.Timeout step \<noteq> [] \<longrightarrow> ParseDuration w (PlanStep.Timeout step) = Inr timeout) \<and>
          (\<exists>cmd. ran (snd (executeStepAttempt w step opts attempt tr)) = ran tr @ [cmd] \<and>
             Deadline cmd = (if timeout > 0 then Some timeout else None) \<and>
             (Run w attempt cmd \<noteq> RunOk \<longrightarrow>
                StepResult.Status (fst (executeStepAttempt w step opts attempt tr)) = ''failed'') \<and>
             (Run w attempt cmd = RunOk \<longrightarrow>
                StepResult.Status (fst (executeStepAttempt w step opts attempt tr)) = ''success''))"
  proof (cases "stepTimeout w step opts")
    case (Inl err)
    with a show ?thesis
      by (auto simp: executeStepAttempt_def stepTimeout_def Let_def split: if_splits option.splits)
  next
    case (Inr timeout)
    from executeStepAttempt_runs [OF a Inr, of tr]
    have "\<exists>cmd. ran (snd (executeStepAttempt w step opts attempt tr)) = ran tr @ [cmd] \<and>
             Deadline cmd = (if timeout > 0 then Some timeout else None) \<and>
             (Run w attempt cmd \<noteq> RunOk \<longrightarrow>
                StepResult.Status (fst (executeStepAttempt w step opts attempt tr)) = ''failed'') \<and>
             (Run w attempt cmd = RunOk \<longrightarrow>
                StepResult.Status (fst (executeStepAttempt w step opts attempt tr)) = ''success'')"
      by (intro exI [of _ "buildCmd w step logFile timeout"]) (simp add: buildCmd_def)
    moreover from Inr have "PlanStep.Timeout step = [] \<longrightarrow> timeout = DefaultTimeout opts"
      "PlanStep.Timeout step \<noteq> [] \<longrightarrow> ParseDuration w (PlanStep.Timeout step) = Inr timeout"
      by (auto simp: stepTimeout_def split: if_splits)
    ultimately show ?thesis using Inr by simp
  qed
qed

definition slowStep :: "string \<Rightarrow> PlanStep" where
  "slowStep timeout = \<lparr>PlanStep.ID = ''slow'', Type = ''shell'', Command = [''sleep'', ''60''],
     Deps = [], Env = [], Timeout = timeout, Retries = 0\<rparr>"

text \<open>
  Under a default of ten seconds: without a timeout field the command gets the default
  as its deadline, and with the field ``30s'' it gets thirty seconds.
\<close>

theorem executeStepAttempt_timeout_witness:
  "map Deadline (ran (snd (executeStepAttempt flakyWorld (slowStep []) testOptions 1 emptyTrace)))
     = [Some 10000000000] \<and>
   map Deadline (ran (snd (executeStepAttempt flakyWorld (slowStep ''30s'') testOptions 1 emptyTrace)))
     = [Some 30000000000] \<and>
   StepResult.Status (fst (executeStepAttempt flakyWorld (slowStep []) testOptions 1 emptyTrace))
     = ''failed''"
proof -
  have l: "createLog flakyWorld (slowStep t) testOptions 1 = Inr None" for t
    by (simp add: createLog_def testOptions_def)
  have t1: "stepTimeout flakyWorld (slowStep []) testOptions = Inr 10000000000"
    by (simp add: stepTimeout_def slowStep_def testOptions_def)
  have t2: "stepTimeout flakyWorld (slowStep ''30s'') testOptions = Inr 30000000000"
    by (simp add: stepTimeout_def slowStep_def flakyWorld_def durationTable_def)
  have r: "Run flakyWorld 1 cmd \<noteq> RunOk" for cmd by (simp add: flakyWorld_def)
  from executeStepAttempt_timeout [of "slowStep []" flakyWorld testOptions 1 None emptyTrace] l t1 r
  have "map Deadline (ran (snd (executeStepAttempt flakyWorld (slowStep []) testOptions 1 emptyTrace)))
     = [Some 10000000000] \<and>
     StepResult.Status (fst (executeStepAttempt flakyWorld (slowStep []) testOptions 1 emptyTrace))
     = ''failed''"
    by (auto simp: slowStep_def emptyTrace_def)
  moreover
  from executeStepAttempt_timeout [of "slowStep ''30s''" flakyWorld testOptions 1 None emptyTrace] l t2
  have "map Deadline (ran (snd (executeStepAttempt flakyWorld (slowStep ''30s'') testOptions 1 emptyTrace)))
     = [Some 30000000000]"
    by (auto simp: slowStep_def emptyTrace_def)
  ultimately show ?thesis by simp
qed

text \<open>
  C6 as stated fails for a timeout that is present and zero: with the field ``0s'', which
  \<^verbatim>\<open>time.ParseDuration\<close> reads as zero, and a default of ten seconds, the command is run
  without any deadline, not with the default.
\<close>

theorem executeStepAttempt_zero_timeout_counterexample:
  "ParseDuration flakyWorld (PlanStep.Timeout (slowStep ''0s'')) = Inr 0 \<and>
   DefaultTimeout testOptions = 10000000000 \<and>
   map Deadline (ran (snd (executeStepAttempt flakyWorld (slowStep ''0s'') testOptions 1 emptyTrace)))
     = [None]"
  by (simp add: executeStepAttempt_def createLog_def stepTimeout_def buildCmd_def slowStep_def
      flakyWorld_def durationTable_def testOptions_def emptyTrace_def)

section \<open>Executor: the tasks of Execute\<close>

text \<open>
  \<^verbatim>\<open>Execute\<close> starts one goroutine per entry of \<^verbatim>\<open>p.Order\<close>. The goroutines share the
  result map (under \<^verbatim>\<open>resultsMu\<close>), the set of failed steps (the map \<^verbatim>\<open>failedSteps\<close>, in
  which only \<^verbatim>\<open>true\<close> is ever stored, under \<^verbatim>\<open>failedMu\<close>), the semaphore channel and the
  cancellable context. A task is at one of the following places of the goroutine body.
  An event takes it from one place to the next and is one channel operation or one
  critical section. Where the goroutine first takes a branch (on a channel, or on the
  set of failed steps) and then stores its own skip result, the branch and the store are
  one event: the set of failed steps and the cancellation only grow, so nothing another
  task does in between changes what is stored. The run of \<^verbatim>\<open>executeStep\<close> lasts from the
  place \<open>Running\<close> to the event at which it returns; its environment is not tied to the
  shared context.
\<close>

datatype pc =
    AcquireSem              \<comment> \<open>at the \<^verbatim>\<open>select\<close> on the semaphore\<close>
  | WaitDeps                \<comment> \<open>slot held, before the check of the dependencies' results\<close>
  | Sleep                   \<comment> \<open>slot held, in the \<^verbatim>\<open>select\<close> on the 10 ms timer\<close>
  | CheckFailed             \<comment> \<open>slot held, before the inspection of \<^verbatim>\<open>failedSteps\<close>\<close>
  | Running                 \<comment> \<open>slot held, inside \<^verbatim>\<open>executeStep\<close>\<close>
  | Store StepResult        \<comment> \<open>slot held, \<^verbatim>\<open>executeStep\<close> has returned the result\<close>
  | Track StepResult        \<comment> \<open>slot held, result stored, before the failure tracking\<close>
  | Cancelling              \<comment> \<open>slot held, failure tracked, before \<^verbatim>\<open>cancel()\<close>\<close>
  | Releasing               \<comment> \<open>slot held, body left, before the deferred \<^verbatim>\<open><-sem\<close>\<close>
  | Finished                \<comment> \<open>the goroutine has returned\<close>

record ExecState =
  results :: "string \<rightharpoonup> StepResult"
  failedSteps :: "string set"
  sem :: nat
  cancelled :: bool
  pcs :: "pc list"

text \<open>
  What a task, numbered by its position in \<^verbatim>\<open>p.Order\<close>, or the caller can do next. The
  scheduler and the environment choose among the events that are possible.
\<close>

datatype event =
    Acquire nat             \<comment> \<open>the send on the semaphore goes through\<close>
  | CancelledWaiting nat    \<comment> \<open>\<^verbatim>\<open>execCtx.Done()\<close> wins the first \<^verbatim>\<open>select\<close>\<close>
  | Poll nat                \<comment> \<open>the check of the dependencies' results\<close>
  | Wake nat                \<comment> \<open>the timer wins the second \<^verbatim>\<open>select\<close>\<close>
  | CancelledPolling nat    \<comment> \<open>\<^verbatim>\<open>execCtx.Done()\<close> wins the second \<^verbatim>\<open>select\<close>\<close>
  | CheckDeps nat           \<comment> \<open>the inspection of \<^verbatim>\<open>failedSteps\<close>\<close>
  | Return nat World        \<comment> \<open>\<^verbatim>\<open>executeStep\<close> returns, in the given environment\<close>
  | Record nat              \<comment> \<open>\<^verbatim>\<open>results[stepID] = result\<close>\<close>
  | TrackFailure nat        \<comment> \<open>\<^verbatim>\<open>failedSteps[stepID] = true\<close> for a failed result\<close>
  | Cancel nat              \<comment> \<open>\<^verbatim>\<open>cancel()\<close>\<close>
  | Release nat             \<comment> \<open>the deferred \<^verbatim>\<open><-sem\<close> and \<^verbatim>\<open>wg.Done()\<close>\<close>
  | CallerCancels           \<comment> \<open>the context passed to \<^verbatim>\<open>Execute\<close> is cancelled\<close>

text \<open>\<^verbatim>\<open>stepMap\<close>: a later step with the same id replaces an earlier one.\<close>

fun stepMapOf :: "PlanStep list \<Rightarrow> (string \<rightharpoonup> PlanStep) \<Rightarrow> (string \<rightharpoonup> PlanStep)" where
  "stepMapOf [] stepMap = stepMap"
| "stepMapOf (step # steps) stepMap = stepMapOf steps (stepMap(PlanStep.ID step \<mapsto> step))"

definition cancelledSkip :: "string \<Rightarrow> StepResult" where
  "cancelledSkip stepID = \<lparr>StepResult.ID = stepID, Status = ''skipped'',
     Error = ''execution cancelled'', LogFile = [], Duration = 0, ExitCode = 0, Attempt = 0\<rparr>"

definition dependencySkip :: "string \<Rightarrow> StepResult" where
  "dependencySkip stepID = \<lparr>StepResult.ID = stepID, Status = ''skipped'',
     Error = ''dependency failed'', LogFile = [], Duration = 0, ExitCode = 0, Attempt = 0\<rparr>"

text \<open>One event of task \<open>i\<close>, whose step is \<open>step\<close> and whose id is \<open>stepID\<close>.\<close>

fun taskEvent :: "Options \<Rightarrow> string \<Rightarrow> PlanStep \<Rightarrow> nat \<Rightarrow> event \<Rightarrow> ExecState \<Rightarrow> ExecState option" where
  "taskEvent opts stepID step i (Acquire _) s =
     (if pcs s ! i = AcquireSem \<and> int (sem s) < Jobs opts
      then Some (s\<lparr>sem := sem s + 1, pcs := (pcs s)[i := WaitDeps]\<rparr>) else None)"
| "taskEvent opts stepID step i (CancelledWaiting _) s =
     (if pcs s ! i = AcquireSem \<and> cancelled s
      then Some (s\<lparr>results := (results s)(stepID \<mapsto> cancelledSkip stepID),
                   pcs := (pcs s)[i := Finished]\<rparr>) else None)"
| "taskEvent opts stepID step i (Poll _) s =
     (if pcs s ! i = WaitDeps
      then (if \<forall>dep\<in>set (PlanStep.Deps step). results s dep \<noteq> None
            then Some (s\<lparr>pcs := (pcs s)[i := CheckFailed]\<rparr>)
            else Some (s\<lparr>pcs := (pcs s)[i := Sleep]\<rparr>))
      else None)"
| "taskEvent opts stepID step i (Wake _) s =
     (if pcs s ! i = Sleep then Some (s\<lparr>pcs := (pcs s)[i := WaitDeps]\<rparr>) else None)"
| "taskEvent opts stepID step i (CancelledPolling _) s =
     (if pcs s ! i = Sleep \<and> cancelled s
      then Some (s\<lparr>results := (results s)(stepID \<mapsto> cancelledSkip stepID),
                   pcs := (pcs s)[i := Releasing]\<rparr>) else None)"
| "taskEvent opts stepID step i (CheckDeps _) s =
     (if pcs s ! i = CheckFailed
      then (if \<exists>dep\<in>set (PlanStep.Deps step). dep \<in> failedSteps s
            then Some (s\<lparr>results := (results s)(stepID \<mapsto> dependencySkip stepID),
                         pcs := (pcs s)[i := Releasing]\<rparr>)
            else Some (s\<lparr>pcs := (pcs s)[i := Running]\<rparr>))
      else None)"
| "taskEvent opts stepID step i (Return _ w) s =
     (if pcs s ! i = Running
      then (case fst (executeStep w step opts emptyTrace) of
              None \<Rightarrow> None
            | Some result \<Rightarrow> Some (s\<lparr>pcs := (pcs s)[i := Store result]\<rparr>))
      else None)"
| "taskEvent opts stepID step i (Record _) s =
     (case pcs s ! i of
        Store result \<Rightarrow> Some (s\<lparr>results := (results s)(stepID \<mapsto> result),
                                pcs := (pcs s)[i := Track result]\<rparr>)
      | _ \<Rightarrow> None)"
| "taskEvent opts stepID step i (TrackFailure _) s =
     (case pcs s ! i of
        Track result \<Rightarrow>
          (if StepResult.Status result = ''failed''
           then Some (s\<lparr>failedSteps := insert stepID (failedSteps s),
                        pcs := (pcs s)[i := (if FailFast opts then Cancelling else Releasing)]\<rparr>)
           else Some (s\<lparr>pcs := (pcs s)[i := Releasing]\<rparr>))
      | _ \<Rightarrow> None)"
| "taskEvent opts stepID step i (Cancel _) s =
     (if pcs s ! i = Cancelling
      then Some (s\<lparr>cancelled := True, pcs := (pcs s)[i := Releasing]\<rparr>) else None)"
| "taskEvent opts stepID step i (Release _) s =
     (if pcs s ! i = Releasing
      then Some (s\<lparr>sem := sem s - 1, pcs := (pcs s)[i := Finished]\<rparr>) else None)"
| "taskEvent opts stepID step i CallerCancels s = None"

fun taskOf :: "event \<Rightarrow> nat option" where
  "taskOf (Acquire i) = Some i"
| "taskOf (CancelledWaiting i) = Some i"
| "taskOf (Poll i) = Some i"
| "taskOf (Wake i) = Some i"
| "taskOf (CancelledPolling i) = Some i"
| "taskOf (CheckDeps i) = Some i"
| "taskOf (Return i w) = Some i"
| "taskOf (Record i) = Some i"
| "taskOf (TrackFailure i) = Some i"
| "taskOf (Cancel i) = Some i"
| "taskOf (Release i) = Some i"
| "taskOf CallerCancels = None"

text \<open>
  One event of the whole system; \<open>None\<close> when the event is not possible in the state. The
  task \<open>i\<close> runs the step that \<^verbatim>\<open>stepMap\<close> holds for \<^verbatim>\<open>p.Order[i]\<close>.
\<close>

definition fire :: "Plan \<Rightarrow> Options \<Rightarrow> event \<Rightarrow> ExecState \<Rightarrow> ExecState option" where
  "fire p opts e s =
     (case taskOf e of
        None \<Rightarrow> Some (s\<lparr>cancelled := True\<rparr>)
      | Some i \<Rightarrow>
          (if i < length (Plan.Order p) \<and> i < length (pcs s)
           then (case stepMapOf (Plan.Steps p) Map.empty (Plan.Order p ! i) of
                   None \<Rightarrow> None
                 | Some step \<Rightarrow> taskEvent opts (Plan.Order p ! i) step i e s)
           else None))"

fun run :: "Plan \<Rightarrow> Options \<Rightarrow> event list \<Rightarrow> ExecState \<Rightarrow> ExecState option" where
  "run p opts [] s = Some s"
| "run p opts (e # es) s =
     (case fire p opts e s of None \<Rightarrow> None | Some s' \<Rightarrow> run p opts es s')"

definition initState :: "Plan \<Rightarrow> ExecState" where
  "initState p = \<lparr>results = Map.empty, failedSteps = {}, sem = 0, cancelled = False,
     pcs = replicate (length (Plan.Order p)) AcquireSem\<rparr>"

definition reachable :: "Plan \<Rightarrow> Options \<Rightarrow> ExecState \<Rightarrow> bool" where
  "reachable p opts s \<longleftrightarrow> (\<exists>es. run p opts es (initState p) = Some s)"

section \<open>Executor: Execute\<close>

datatype exec_error =
    PlanIsNil
  | CreateOutputDirectory string
  | StepNotInSteps string
  | MissingResult string

text \<open>The loop that collects the results in the order of the plan.\<close>

fun collectResults :: "(string \<rightharpoonup> StepResult) \<Rightarrow> string list \<Rightarrow> StepResult list \<Rightarrow> string \<Rightarrow>
    exec_error + StepResult list \<times> string" where
  "collectResults res [] stepResults overallStatus = Inr (stepResults, overallStatus)"
| "collectResults res (stepID # ids) stepResults overallStatus =
     (case res stepID of
        None \<Rightarrow> Inl (MissingResult stepID)
      | Some result \<Rightarrow>
          collectResults res ids (stepResults @ [result])
            (if StepResult.Status result = ''failed'' then ''failed'' else overallStatus))"

text \<open>
  What a call of \<^verbatim>\<open>Execute\<close> comes to: it returns an error or a result, it panics
  (\<^verbatim>\<open>make\<close> of a channel of negative size), or it has not returned, because the schedule
  is not one of the system or has not brought every task to its end (\<^verbatim>\<open>wg.Wait()\<close>).
\<close>

datatype exec_outcome = Returned "exec_error + ExecutionResult" | Panicked | NotReturned

text \<open>
  \<^verbatim>\<open>Execute\<close>, for a plan pointer (\<open>None\<close> is nil), the outcome of \<^verbatim>\<open>os.MkdirAll\<close> (the text
  of its error, if any), a schedule of events and the measured total duration.
\<close>

definition Execute :: "Plan option \<Rightarrow> Options \<Rightarrow> string option \<Rightarrow> event list \<Rightarrow> int \<Rightarrow> exec_outcome" where
  "Execute plan opts mkdirErr schedule duration =
     (case plan of
        None \<Rightarrow> Returned (Inl PlanIsNil)
      | Some p \<Rightarrow>
          if OutDir opts \<noteq> [] \<and> mkdirErr \<noteq> None
          then Returned (Inl (CreateOutputDirectory (the mkdirErr)))
          else if Jobs opts < 0 then Panicked
          else (case filter (\<lambda>stepID. stepMapOf (Plan.Steps p) Map.empty stepID = None) (Plan.Order p) of
                  stepID # _ \<Rightarrow> Returned (Inl (StepNotInSteps stepID))
                | [] \<Rightarrow>
                    (case run p opts schedule (initState p) of
                       None \<Rightarrow> NotReturned
                     | Some s \<Rightarrow>
                         if \<exists>c\<in>set (pcs s). c \<noteq> Finished then NotReturned
                         else (case collectResults (results s) (Plan.Order p) [] ''success'' of
                                 Inl err \<Rightarrow> Returned (Inl err)
                               | Inr (stepResults, overallStatus) \<Rightarrow>
                                   Returned (Inr \<lparr>ExecutionResult.Status = overallStatus,
                                     Duration = duration, Steps = stepResults\<rparr>)))))"

section \<open>Executor: invariants of the tasks\<close>

text \<open>
  The places at which a task holds a slot of the semaphore, at which its result is in the
  result map, and from which on its id may be in the set of failed steps.
\<close>

fun holdsSlot :: "pc \<Rightarrow> bool" where
  "holdsSlot AcquireSem = False"
| "holdsSlot Finished = False"
| "holdsSlot _ = True"

fun recorded :: "pc \<Rightarrow> bool" where
  "recorded (Track _) = True"
| "recorded Cancelling = True"
| "recorded Releasing = True"
| "recorded Finished = True"
| "recorded _ = False"


definition slotInv :: "Plan \<Rightarrow> Options \<Rightarrow> ExecState \<Rightarrow> bool" where
  "slotInv p opts s \<longleftrightarrow>
     length (pcs s) = length (Plan.Order p) \<and>
     sem s = length (filter holdsSlot (pcs s)) \<and>
     int (sem s) \<le> max (Jobs opts) 0"

definition recordInv :: "Plan \<Rightarrow> ExecState \<Rightarrow> bool" where
  "recordInv p s \<longleftrightarrow>
     (\<forall>i<length (Plan.Order p). recorded (pcs s ! i) \<longrightarrow> results s (Plan.Order p ! i) \<noteq> None)"

lemma filter_update_length:
  "i < length xs \<Longrightarrow>
     length (filter P (xs[i := y])) + (if P (xs ! i) then 1 else 0)
       = length (filter P xs) + (if P y then 1 else 0)"
proof (induction xs arbitrary: i)
  case Nil
  then show ?case by simp
next
  case (Cons x xs)
  then show ?case by (cases i) auto
qed

lemma slots_update:
  "i < length xs \<Longrightarrow> holdsSlot (xs ! i) \<Longrightarrow> holdsSlot y \<Longrightarrow>
     length (filter holdsSlot (xs[i := y])) = length (filter holdsSlot xs)"
  "i < length xs \<Longrightarrow> \<not> holdsSlot (xs ! i) \<Longrightarrow> \<not> holdsSlot y \<Longrightarrow>
     length (filter holdsSlot (xs[i := y])) = length (filter holdsSlot xs)"
  "i < length xs \<Longrightarrow> \<not> holdsSlot (xs ! i) \<Longrightarrow> holdsSlot y \<Longrightarrow>
     length (filter holdsSlot (xs[i := y])) = length (filter holdsSlot xs) + 1"
  "i < length xs \<Longrightarrow> holdsSlot (xs ! i) \<Longrightarrow> \<not> holdsSlot y \<Longrightarrow>
     length (filter holdsSlot (xs[i := y])) + 1 = length (filter holdsSlot xs)"
  using filter_update_length [of i xs holdsSlot y] by simp_all

lemma taskEvent_slotInv:
  assumes "taskEvent opts stepID step i e s = Some s'" and "i < length (pcs s)"
    and "sem s = length (filter holdsSlot (pcs s))" and "int (sem s) \<le> max (Jobs opts) 0"
  shows "length (pcs s') = length (pcs s) \<and> sem s' = length (filter holdsSlot (pcs s')) \<and>
    int (sem s') \<le> max (Jobs opts) 0"
proof (cases e)
  case (Acquire x)
  with assms show ?thesis by (auto simp: slots_update split: if_splits)
next
  case (CancelledWaiting x)
  with assms show ?thesis by (auto simp: slots_update split: if_splits)
next
  case (Poll x)
  with assms show ?thesis by (auto simp: slots_update split: if_splits)
next
  case (Wake x)
  with assms show ?thesis by (auto simp: slots_update split: if_splits)
next
  case (CancelledPolling x)
  with assms show ?thesis by (auto simp: slots_update split: if_splits)
next
  case (CheckDeps x)
  with assms show ?thesis by (auto simp: slots_update split: if_splits)
next
  case (Return x w)
  with assms show ?thesis by (auto simp: slots_update split: if_splits option.splits)
next
  case (Record x)
  with assms show ?thesis by (auto simp: slots_update split: pc.splits)
next
  case (TrackFailure x)
  with assms show ?thesis by (auto simp: slots_update split: pc.splits if_splits)
next
  case (Cancel x)
  with assms show ?thesis by (auto simp: slots_update split: if_splits)
next
  case (Release x)
  with assms(1) have r: "pcs s ! i = Releasing" "s' = s\<lparr>sem := sem s - 1, pcs := (pcs s)[i := Finished]\<rparr>"
    by (auto split: if_splits)
  from slots_update(4) [OF assms(2), of Finished] r(1)
  have "length (filter holdsSlot ((pcs s)[i := Finished])) + 1 = length (filter holdsSlot (pcs s))"
    by simp
  with assms r show ?thesis by auto
next
  case CallerCancels
  with assms show ?thesis by simp
qed

lemma taskEvent_recordInv:
  assumes "taskEvent opts (Plan.Order p ! i) step i e s = Some s'" and "i < length (Plan.Order p)"
    and "length (pcs s) = length (Plan.Order p)" and "recordInv p s"
  shows "recordInv p s'"
proof -
  have upd: "recordInv p (s\<lparr>results := (results s)(Plan.Order p ! i \<mapsto> r), pcs := (pcs s)[i := c]\<rparr>)" for r c
    using assms(2-4) by (auto simp: recordInv_def nth_list_update)
  have keep: "recordInv p (s\<lparr>pcs := (pcs s)[i := c]\<rparr>)"
    if "recorded c \<longrightarrow> recorded (pcs s ! i)" for c
    using assms(2-4) that by (auto simp: recordInv_def nth_list_update)
  have keep': "recordInv p (t\<lparr>pcs := (pcs s)[i := c]\<rparr>)"
    if "recorded c \<longrightarrow> recorded (pcs s ! i)" "results t = results s" for c t
    using assms(2-4) that by (auto simp: recordInv_def nth_list_update)
  show ?thesis
  proof (cases e)
    case (Acquire x)
    with assms(1) keep' [of WaitDeps] show ?thesis by (auto split: if_splits)
  next
    case (CancelledWaiting x)
    with assms(1) upd show ?thesis by (auto split: if_splits)
  next
    case (Poll x)
    with assms(1) keep [of CheckFailed] keep [of Sleep] show ?thesis by (auto split: if_splits)
  next
    case (Wake x)
    with assms(1) keep [of WaitDeps] show ?thesis by (auto split: if_splits)
  next
    case (CancelledPolling x)
    with assms(1) upd show ?thesis by (auto split: if_splits)
  next
    case (CheckDeps x)
    with assms(1) upd keep [of Running] show ?thesis by (auto split: if_splits)
  next
    case (Return x w)
    with assms(1) keep show ?thesis by (auto split: if_splits option.splits)
  next
    case (Record x)
    with assms(1) upd show ?thesis by (auto split: pc.splits)
  next
    case (TrackFailure x)
    with assms(1) keep' [of Cancelling] keep' [of Releasing] keep [of Releasing] show ?thesis
      by (auto split: pc.splits if_splits)
  next
    case (Cancel x)
    with assms(1) keep' [of Releasing] show ?thesis by (auto split: if_splits)
  next
    case (Release x)
    with assms(1) keep' [of Finished] show ?thesis by (auto split: if_splits)
  next
    case CallerCancels
    with assms(1) show ?thesis by simp
  qed
qed

section \<open>Executor: what Execute returns\<close>

lemma fire_task:
  assumes "fire p opts e s = Some s'" and "taskOf e = Some i"
  obtains step where "i < length (Plan.Order p)" "i < length (pcs s)"
    "stepMapOf (Plan.Steps p) Map.empty (Plan.Order p ! i) = Some step"
    "taskEvent opts (Plan.Order p ! i) step i e s = Some s'"
  using assms by (auto simp: fire_def split: if_splits option.splits)

lemma fire_caller:
  "taskOf e = None \<Longrightarrow> fire p opts e s = Some (s\<lparr>cancelled := True\<rparr>)"
  by (simp add: fire_def)

lemma fire_inv:
  assumes "fire p opts e s = Some s'" and "slotInv p opts s" and "recordInv p s"
  shows "slotInv p opts s' \<and> recordInv p s'"
proof (cases "taskOf e")
  case None
  with assms fire_caller [OF None, of p opts s] show ?thesis
    by (auto simp: slotInv_def recordInv_def)
next
  case (Some i)
  from fire_task [OF assms(1) Some] obtain step where t: "i < length (Plan.Order p)"
    "i < length (pcs s)" "taskEvent opts (Plan.Order p ! i) step i e s = Some s'" by blast
  from assms(2) have l: "length (pcs s) = length (Plan.Order p)"
    "sem s = length (filter holdsSlot (pcs s))" "int (sem s) \<le> max (Jobs opts) 0"
    by (auto simp: slotInv_def)
  from taskEvent_slotInv [OF t(3) t(2) l(2) l(3)] l(1) have "slotInv p opts s'"
    by (simp add: slotInv_def)
  moreover from taskEvent_recordInv [OF t(3) t(1) l(1) assms(3)] have "recordInv p s'" .
  ultimately show ?thesis ..
qed

lemma run_inv:
  "run p opts es s = Some s' \<Longrightarrow> slotInv p opts s \<Longrightarrow> recordInv p s \<Longrightarrow>
     slotInv p opts s' \<and> recordInv p s'"
proof (induction es arbitrary: s)
  case Nil
  then show ?case by simp
next
  case (Cons e es)
  from Cons.prems(1) obtain s1 where s1: "fire p opts e s = Some s1" "run p opts es s1 = Some s'"
    by (auto split: option.splits)
  from fire_inv [OF s1(1) Cons.prems(2,3)] Cons.IH [OF s1(2)] show ?case by blast
qed

lemma init_inv: "slotInv p opts (initState p)" "recordInv p (initState p)"
  by (simp_all add: slotInv_def recordInv_def initState_def)

lemma reachable_inv: "reachable p opts s \<Longrightarrow> slotInv p opts s \<and> recordInv p s"
  using run_inv init_inv by (auto simp: reachable_def)

lemma finished_recorded:
  assumes "slotInv p opts s" "recordInv p s" "\<forall>c\<in>set (pcs s). c = Finished"
    and "stepID \<in> set (Plan.Order p)"
  shows "results s stepID \<noteq> None"
proof -
  from assms(4) obtain i where i: "i < length (Plan.Order p)" "Plan.Order p ! i = stepID"
    by (auto simp: in_set_conv_nth)
  with assms(1) have "pcs s ! i \<in> set (pcs s)" by (simp add: slotInv_def)
  with assms(3) have "pcs s ! i = Finished" by blast
  with assms(2) i show ?thesis by (auto simp: recordInv_def)
qed

lemma collectResults_missing:
  "collectResults res ids stepResults overallStatus = Inl err \<Longrightarrow>
     \<exists>stepID\<in>set ids. err = MissingResult stepID \<and> res stepID = None"
  by (induction ids arbitrary: stepResults overallStatus) (auto split: option.splits)

lemma collectResults_all:
  "collectResults res ids stepResults overallStatus = Inr (rs, status) \<Longrightarrow>
     map Some rs = map Some stepResults @ map res ids \<and>
     status = (if \<exists>stepID\<in>set ids. \<exists>r. res stepID = Some r \<and> StepResult.Status r = ''failed''
               then ''failed'' else overallStatus)"
proof (induction ids arbitrary: stepResults overallStatus)
  case Nil
  then show ?case by simp
next
  case (Cons stepID ids)
  then obtain r where r: "res stepID = Some r" by (auto split: option.splits)
  with Cons.prems have "collectResults res ids (stepResults @ [r])
      (if StepResult.Status r = ''failed'' then ''failed'' else overallStatus) = Inr (rs, status)"
    by simp
  from Cons.IH [OF this] r show ?case by auto
qed

lemma map_Some_ex:
  "map Some rs = map res ids \<Longrightarrow>
     (\<exists>r\<in>set rs. P r) \<longleftrightarrow> (\<exists>stepID\<in>set ids. \<exists>r. res stepID = Some r \<and> P r)"
proof (induction ids arbitrary: rs)
  case Nil
  then show ?case by simp
next
  case (Cons stepID ids)
  then obtain r rs' where rs: "rs = r # rs'" "res stepID = Some r" "map Some rs' = map res ids"
    by (cases rs) auto
  from Cons.IH [OF rs(3)] rs(1,2) show ?case by simp
qed

lemma collectResults_status:
  assumes "collectResults res ids [] ''success'' = Inr (rs, status)"
  shows "map Some rs = map res ids"
    and "status = (if \<exists>r\<in>set rs. StepResult.Status r = ''failed'' then ''failed'' else ''success'')"
proof -
  from collectResults_all [OF assms] have m: "map Some rs = map res ids"
    and st: "status = (if \<exists>stepID\<in>set ids. \<exists>r. res stepID = Some r \<and> StepResult.Status r = ''failed''
               then ''failed'' else ''success'')" by simp_all
  from m show "map Some rs = map res ids" .
  from st map_Some_ex [OF m, of "\<lambda>r. StepResult.Status r = ''failed''"]
  show "status = (if \<exists>r\<in>set rs. StepResult.Status r = ''failed'' then ''failed'' else ''success'')"
    by simp
qed

text \<open>
  C4, as the code has it. When Execute returns an error, the plan is nil, or the output
  directory is set and could not be created, or some id of the plan's order names no step
  of the plan; the error for an id without a recorded result is never returned, since
  every task records a result before it ends. When it returns a result, the tasks have
  run to their end, the step results are the recorded results in the order of the plan,
  and the overall status is failed if one of them is failed and success otherwise.
\<close>

theorem Execute_returns:
  "(Execute plan opts mkdirErr schedule duration = Returned (Inl err) \<longrightarrow>
      (plan = None \<and> err = PlanIsNil) \<or>
      (\<exists>msg. plan \<noteq> None \<and> OutDir opts \<noteq> [] \<and> mkdirErr = Some msg \<and>
         err = CreateOutputDirectory msg) \<or>
      (\<exists>p stepID. plan = Some p \<and> stepID \<in> set (Plan.Order p) \<and>
         stepMapOf (Plan.Steps p) Map.empty stepID = None \<and> err = StepNotInSteps stepID))
   \<and> (Execute plan opts mkdirErr schedule duration = Returned (Inr res) \<longrightarrow>
      (\<exists>p s. plan = Some p \<and> run p opts schedule (initState p) = Some s \<and>
         map Some (ExecutionResult.Steps res) = map (results s) (Plan.Order p)) \<and>
      ExecutionResult.Status res =
        (if \<exists>r\<in>set (ExecutionResult.Steps res). StepResult.Status r = ''failed''
         then ''failed'' else ''success''))"
proof (cases plan)
  case None
  then show ?thesis by (simp add: Execute_def)
next
  case (Some p)
  show ?thesis
  proof (cases "OutDir opts \<noteq> [] \<and> mkdirErr \<noteq> None")
    case True
    then obtain msg where "mkdirErr = Some msg" by auto
    with True Some have "Execute plan opts mkdirErr schedule duration
        = Returned (Inl (CreateOutputDirectory msg))"
      by (simp add: Execute_def)
    with True Some \<open>mkdirErr = Some msg\<close> show ?thesis by simp
  next
    case mk: False
    show ?thesis
    proof (cases "Jobs opts < 0")
      case True
      have "Execute plan opts mkdirErr schedule duration = Panicked"
        unfolding Execute_def Some option.case if_not_P [OF mk] if_P [OF True] ..
      then show ?thesis by simp
    next
      case jobs: False
      let ?missing = "filter (\<lambda>stepID. stepMapOf (Plan.Steps p) Map.empty stepID = None) (Plan.Order p)"
      show ?thesis
      proof (cases ?missing)
        case (Cons stepID ids)
        then have "stepID \<in> set ?missing" by simp
        then have m: "stepID \<in> set (Plan.Order p)" "stepMapOf (Plan.Steps p) Map.empty stepID = None"
          by simp_all
        have "Execute plan opts mkdirErr schedule duration = Returned (Inl (StepNotInSteps stepID))"
          unfolding Execute_def Some option.case if_not_P [OF mk] if_not_P [OF jobs] Cons list.case ..
        with Some m show ?thesis by auto
      next
        case Nil
        have ex0: "Execute plan opts mkdirErr schedule duration =
            (case run p opts schedule (initState p) of
               None \<Rightarrow> NotReturned
             | Some s \<Rightarrow>
                 if \<exists>c\<in>set (pcs s). c \<noteq> Finished then NotReturned
                 else (case collectResults (results s) (Plan.Order p) [] ''success'' of
                         Inl err \<Rightarrow> Returned (Inl err)
                       | Inr (stepResults, overallStatus) \<Rightarrow>
                           Returned (Inr \<lparr>ExecutionResult.Status = overallStatus,
                             Duration = duration, Steps = stepResults\<rparr>)))"
          unfolding Execute_def Some option.case if_not_P [OF mk] if_not_P [OF jobs] Nil list.case ..
        show ?thesis
        proof (cases "run p opts schedule (initState p)")
          case None
          with ex0 show ?thesis by simp
        next
          case s: (Some s)
          show ?thesis
          proof (cases "\<exists>c\<in>set (pcs s). c \<noteq> Finished")
            case True
            with ex0 s show ?thesis by simp
          next
            case fin: False
            from s have "reachable p opts s" by (auto simp: reachable_def)
            from reachable_inv [OF this] have inv: "slotInv p opts s" "recordInv p s" by simp_all
            from fin have allfin: "\<forall>c\<in>set (pcs s). c = Finished" by simp
            have ex: "Execute plan opts mkdirErr schedule duration =
                (case collectResults (results s) (Plan.Order p) [] ''success'' of
                   Inl err \<Rightarrow> Returned (Inl err)
                 | Inr (stepResults, overallStatus) \<Rightarrow>
                     Returned (Inr \<lparr>ExecutionResult.Status = overallStatus,
                       Duration = duration, Steps = stepResults\<rparr>))"
              unfolding ex0 s option.case if_not_P [OF fin] ..
            show ?thesis
            proof (cases "collectResults (results s) (Plan.Order p) [] ''success''")
              case (Inl e)
              from collectResults_missing [OF Inl] finished_recorded [OF inv allfin]
              have False by blast
              then show ?thesis ..
            next
              case (Inr pr)
              obtain rs status where pr: "pr = (rs, status)" by (cases pr)
              from ex Inr pr have ret: "Execute plan opts mkdirErr schedule duration =
                  Returned (Inr \<lparr>ExecutionResult.Status = status, Duration = duration, Steps = rs\<rparr>)"
                by simp
              from collectResults_status [OF Inr [unfolded pr]]
              have c: "map Some rs = map (results s) (Plan.Order p)"
                "status = (if \<exists>r\<in>set rs. StepResult.Status r = ''failed'' then ''failed'' else ''success'')"
                by simp_all
              show ?thesis
              proof (intro conjI impI)
                assume "Execute plan opts mkdirErr schedule duration = Returned (Inl err)"
                with ret show "(plan = None \<and> err = PlanIsNil) \<or>
                  (\<exists>msg. plan \<noteq> None \<and> OutDir opts \<noteq> [] \<and> mkdirErr = Some msg \<and>
                     err = CreateOutputDirectory msg) \<or>
                  (\<exists>p stepID. plan = Some p \<and> stepID \<in> set (Plan.Order p) \<and>
                     stepMapOf (Plan.Steps p) Map.empty stepID = None \<and> err = StepNotInSteps stepID)"
                  by simp
              next
                assume "Execute plan opts mkdirErr schedule duration = Returned (Inr res)"
                with ret have res: "res = \<lparr>ExecutionResult.Status = status, Duration = duration, Steps = rs\<rparr>"
                  by simp
                with c(1) Some s show "\<exists>p s. plan = Some p \<and> run p opts schedule (initState p) = Some s \<and>
                    map Some (ExecutionResult.Steps res) = map (results s) (Plan.Order p)"
                  by simp
                from res c(2) show "ExecutionResult.Status res =
                    (if \<exists>r\<in>set (ExecutionResult.Steps res). StepResult.Status r = ''failed''
                     then ''failed'' else ''success'')"
                  by simp
              qed
            qed
          qed
        qed
      qed
    qed
  qed
qed

section \<open>Executor: a failing step and its dependent\<close>

text \<open>
  The plan of the repository's dependency-skip test: a step that runs \<^verbatim>\<open>false\<close> and a
  step that depends on it, in an environment in which every command exits with status 1.
\<close>

definition failingStep :: PlanStep where
  "failingStep = \<lparr>PlanStep.ID = ''failing'', Type = ''shell'', Command = [''false''],
     Deps = [], Env = [], Timeout = [], Retries = 0\<rparr>"

definition dependentStep :: PlanStep where
  "dependentStep = \<lparr>PlanStep.ID = ''dependent'', Type = ''shell'', Command = [''echo'', ''dependent''],
     Deps = [''failing''], Env = [], Timeout = [], Retries = 0\<rparr>"

definition skipPlan :: Plan where
  "skipPlan = \<lparr>Plan.Version = 1, ProjectName = ''test'', Profile = ''default'', ConfigHash = ''abc123'',
     CreatedAt = ''2024-01-01T00:00:00Z'', Steps = [failingStep, dependentStep],
     Order = [''failing'', ''dependent'']\<rparr>"

definition failingWorld :: World where
  "failingWorld = flakyWorld\<lparr>Run := (\<lambda>attempt cmd. ExitError 1 ''exit status 1'')\<rparr>"

definition keepGoing :: Options where
  "keepGoing = \<lparr>OutDir = [], DefaultTimeout = 10000000000, Jobs = 4, FailFast = False\<rparr>"

definition failFast :: Options where
  "failFast = keepGoing\<lparr>FailFast := True\<rparr>"

definition failedResult :: StepResult where
  "failedResult = \<lparr>StepResult.ID = ''failing'', Status = ''failed'', Error = ''exit status 1'',
     LogFile = [], Duration = 3000000, ExitCode = 1, Attempt = 1\<rparr>"

lemma executeStep_failing:
  "fst (executeStep failingWorld failingStep (keepGoing\<lparr>FailFast := b\<rparr>) emptyTrace)
     = Some failedResult"
  by (simp add: executeStep_def maxAttemptsOf_def attemptLoop.simps [of _ _ _ 1 1]
      attemptLoop.simps [of _ _ _ 1 2] executeStepAttempt_def createLog_def stepTimeout_def
      buildCmd_def failingWorld_def flakyWorld_def failingStep_def keepGoing_def emptyTrace_def
      failedResult_def Let_def)



definition skipSchedule :: "event list" where
  "skipSchedule = [Acquire 0, Acquire 1, Poll 0, Poll 1, CheckDeps 0, Return 0 failingWorld,
     Record 0, TrackFailure 0, Release 0, Wake 1, Poll 1, CheckDeps 1, Release 1]"

lemma skipPlan_simps:
  "Plan.Order skipPlan = [''failing'', ''dependent'']"
  "stepMapOf (Plan.Steps skipPlan) Map.empty ''failing'' = Some failingStep"
  "stepMapOf (Plan.Steps skipPlan) Map.empty ''dependent'' = Some dependentStep"
  "PlanStep.Deps failingStep = []"
  "PlanStep.Deps dependentStep = [''failing'']"
  by (simp_all add: skipPlan_def failingStep_def dependentStep_def)

lemma options_simps:
  "Jobs keepGoing = 4" "FailFast keepGoing = False" "OutDir keepGoing = []"
  "Jobs failFast = 4" "FailFast failFast = True" "OutDir failFast = []"
  by (simp_all add: keepGoing_def failFast_def)

lemma executeStep_failing':
  "fst (executeStep failingWorld failingStep keepGoing emptyTrace) = Some failedResult"
  "fst (executeStep failingWorld failingStep failFast emptyTrace) = Some failedResult"
  using executeStep_failing [of False] executeStep_failing [of True]
  by (simp_all add: keepGoing_def failFast_def)

lemma failedResult_status: "StepResult.Status failedResult = ''failed''"
  by (simp add: failedResult_def)

lemma run_skipSchedule:
  "run skipPlan keepGoing skipSchedule (initState skipPlan) =
     Some \<lparr>results = [''failing'' \<mapsto> failedResult, ''dependent'' \<mapsto> dependencySkip ''dependent''],
       failedSteps = {''failing''}, sem = 0, cancelled = False, pcs = [Finished, Finished]\<rparr>"
  by (simp add: skipSchedule_def fire_def initState_def skipPlan_simps options_simps
      executeStep_failing' failedResult_status)





section \<open>Executor: the set of failed steps\<close>









section \<open>Executor: failed results and the failure mark\<close>








text \<open>
  The dependency-skip test run to its end without fail-fast, and a call with a nil plan.
\<close>

theorem Execute_returns_witness:
  "Execute None keepGoing None [] 0 = Returned (Inl PlanIsNil) \<and>
   (\<exists>res. Execute (Some skipPlan) keepGoing None skipSchedule 5 = Returned (Inr res) \<and>
      map StepResult.Status (ExecutionResult.Steps res) = [''failed'', ''skipped''] \<and>
      ExecutionResult.Status res = ''failed'')"
proof -
  have nil: "Execute None keepGoing None [] 0 = Returned (Inl PlanIsNil)"
    by (simp add: Execute_def)
  let ?res = "\<lparr>ExecutionResult.Status = ''failed'', Duration = 5,
    Steps = [failedResult, dependencySkip ''dependent'']\<rparr>"
  have run: "Execute (Some skipPlan) keepGoing None skipSchedule 5 = Returned (Inr ?res)"
    by (simp add: Execute_def run_skipSchedule skipPlan_simps options_simps failedResult_status)
  from Execute_returns [of "Some skipPlan" keepGoing None skipSchedule 5 PlanIsNil ?res] run
  have "ExecutionResult.Status ?res =
      (if \<exists>r\<in>set (ExecutionResult.Steps ?res). StepResult.Status r = ''failed''
       then ''failed'' else ''success'')"
    by blast
  moreover have "map StepResult.Status (ExecutionResult.Steps ?res) = [''failed'', ''skipped'']"
    by (simp add: failedResult_def dependencySkip_def)
  ultimately show ?thesis using nil run by auto
qed

text \<open>
  C4 as stated fails: a plan that is not nil whose order names an id without a step makes
  Execute return an error before any task has run, and so does an output directory that
  cannot be created.
\<close>

definition ghostPlan :: Plan where
  "ghostPlan = skipPlan\<lparr>Plan.Order := [''failing'', ''ghost'']\<rparr>"

theorem Execute_other_errors_counterexample:
  "Execute (Some ghostPlan) keepGoing None [] 0 = Returned (Inl (StepNotInSteps ''ghost'')) \<and>
   Execute (Some skipPlan) (keepGoing\<lparr>OutDir := ''/proc/out''\<rparr>) (Some ''permission denied'') [] 0
     = Returned (Inl (CreateOutputDirectory ''permission denied''))"
  by (simp add: Execute_def ghostPlan_def skipPlan_def failingStep_def dependentStep_def
      keepGoing_def)

section \<open>Executor: the dependency-failed skip\<close>






















section \<open>Executor: the semaphore\<close>

text \<open>In every reachable state the tasks inside \<^verbatim>\<open>executeStep\<close> are at most \<^verbatim>\<open>opts.Jobs\<close>.\<close>

lemma running_bounded:
  assumes "reachable p opts s"
  shows "int (length (filter (\<lambda>c. c = Running) (pcs s))) \<le> max (Jobs opts) 0"
proof -
  have "length (filter (\<lambda>c. c = Running) cs) \<le> length (filter holdsSlot cs)" for cs
  proof (induction cs)
    case Nil
    then show ?case by simp
  next
    case (Cons c cs)
    then show ?case by (cases "c = Running") auto
  qed
  from this [of "pcs s"] have "int (length (filter (\<lambda>c. c = Running) (pcs s)))
      \<le> int (length (filter holdsSlot (pcs s)))"
    by (simp only: of_nat_le_iff)
  also from reachable_inv [OF assms] have "\<dots> \<le> max (Jobs opts) 0"
    by (simp add: slotInv_def)
  finally show ?thesis .
qed

text \<open>
  The dependency-skip plan with a single slot. When the dependent task is the first at
  the semaphore, it takes the slot and polls for its dependency while it holds it.
\<close>

definition oneJob :: Options where
  "oneJob = keepGoing\<lparr>Jobs := 1\<rparr>"

definition blockedState :: ExecState where
  "blockedState = \<lparr>results = Map.empty, failedSteps = {}, sem = 1, cancelled = False,
     pcs = [AcquireSem, Sleep]\<rparr>"

definition blocked :: "ExecState \<Rightarrow> bool" where
  "blocked s \<longleftrightarrow> results s = Map.empty \<and> failedSteps s = {} \<and> sem s = 1 \<and> \<not> cancelled s \<and>
     (pcs s = [AcquireSem, Sleep] \<or> pcs s = [AcquireSem, WaitDeps])"

lemma oneJob_simps: "Jobs oneJob = 1" "FailFast oneJob = False" "OutDir oneJob = []"
  by (simp_all add: oneJob_def keepGoing_def)

lemma taskEvent_blocked0:
  "blocked s \<Longrightarrow> taskEvent oneJob ''failing'' failingStep 0 e s = None"
  by (cases e) (auto simp: blocked_def oneJob_simps)

lemma taskEvent_blocked1:
  "blocked s \<Longrightarrow> taskEvent oneJob ''dependent'' dependentStep (Suc 0) e s = Some s' \<Longrightarrow> blocked s'"
  by (cases e) (auto simp: blocked_def oneJob_simps skipPlan_simps split: if_splits)

lemma fire_blocked:
  assumes "blocked s" "e \<noteq> CallerCancels" "fire skipPlan oneJob e s = Some s'"
  shows "blocked s'"
proof (cases "taskOf e")
  case None
  with assms(2) show ?thesis by (cases e) auto
next
  case (Some i)
  from assms(3) Some have i: "i < 2" by (auto simp: fire_def skipPlan_simps split: if_splits)
  show ?thesis
  proof (cases "i = 0")
    case True
    with assms(1,3) Some taskEvent_blocked0 [OF assms(1), of e] show ?thesis
      by (auto simp: fire_def skipPlan_simps split: if_splits)
  next
    case False
    with i have "i = Suc 0" by simp
    with assms(1,3) Some taskEvent_blocked1 [OF assms(1), of e s'] show ?thesis
      by (auto simp: fire_def skipPlan_simps split: if_splits)
  qed
qed

lemma run_blocked:
  "blocked s \<Longrightarrow> CallerCancels \<notin> set es \<Longrightarrow> run skipPlan oneJob es s = Some s' \<Longrightarrow> blocked s'"
proof (induction es arbitrary: s)
  case Nil
  then show ?case by simp
next
  case (Cons e es)
  from Cons.prems(3) obtain s1 where s1: "fire skipPlan oneJob e s = Some s1"
    "run skipPlan oneJob es s1 = Some s'"
    by (auto split: option.splits)
  from Cons.prems(2) have "e \<noteq> CallerCancels" "CallerCancels \<notin> set es" by auto
  from Cons.IH [OF fire_blocked [OF Cons.prems(1) this(1) s1(1)] this(2) s1(2)] show ?case .
qed

lemma run_append:
  "run p opts (es @ es') s = (case run p opts es s of None \<Rightarrow> None | Some s1 \<Rightarrow> run p opts es' s1)"
  by (induction es arbitrary: s) (auto split: option.splits)

lemma run_to_blockedState:
  "run skipPlan oneJob [Acquire 1, Poll 1] (initState skipPlan) = Some blockedState"
  by (simp add: fire_def initState_def skipPlan_simps oneJob_simps blockedState_def)

text \<open>
  C9 at this input. With one slot and the schedule in which the dependent task acquires
  it first, the task that polls for its dependency holds the only slot (the semaphore
  counts it) and the failing step cannot acquire one. From then on, as long as the caller
  does not cancel the context, whatever the tasks do no result is ever recorded, the
  failing step stays at the semaphore, and Execute does not return.
\<close>

theorem polling_task_holds_slot:
  "run skipPlan oneJob [Acquire 1, Poll 1] (initState skipPlan) = Some blockedState \<and>
   pcs blockedState ! 1 = Sleep \<and> int (sem blockedState) = Jobs oneJob \<and>
   fire skipPlan oneJob (Acquire 0) blockedState = None \<and>
   (CallerCancels \<notin> set es \<and> run skipPlan oneJob es blockedState = Some s' \<longrightarrow>
      results s' = Map.empty \<and> pcs s' ! 0 = AcquireSem \<and> sem s' = 1 \<and>
      Execute (Some skipPlan) oneJob None ([Acquire 1, Poll 1] @ es) duration = NotReturned)"
proof -
  have b: "blocked blockedState" by (simp add: blocked_def blockedState_def)
  have a: "fire skipPlan oneJob (Acquire 0) blockedState = None"
    by (simp add: fire_def skipPlan_simps oneJob_simps blockedState_def)
  have r: "results s' = Map.empty \<and> pcs s' ! 0 = AcquireSem \<and> sem s' = 1 \<and>
      Execute (Some skipPlan) oneJob None ([Acquire 1, Poll 1] @ es) duration = NotReturned"
    if h: "CallerCancels \<notin> set es" "run skipPlan oneJob es blockedState = Some s'"
  proof -
    from run_blocked [OF b h] have s': "blocked s'" .
    then have nf: "\<exists>c\<in>set (pcs s'). c \<noteq> Finished" by (auto simp: blocked_def)
    have "run skipPlan oneJob ([Acquire 1, Poll 1] @ es) (initState skipPlan) = Some s'"
      unfolding run_append run_to_blockedState using h(2) by simp
    with nf have "Execute (Some skipPlan) oneJob None ([Acquire 1, Poll 1] @ es) duration = NotReturned"
      by (simp add: Execute_def oneJob_simps skipPlan_simps)
    with s' show ?thesis by (auto simp: blocked_def)
  qed
  from run_to_blockedState a r show ?thesis
    by (simp add: oneJob_simps) (simp add: blockedState_def)
qed

text \<open>The polling task wakes up, checks again and goes back to sleep; nothing else can happen.\<close>

theorem polling_task_holds_slot_witness:
  "CallerCancels \<notin> set [Wake 1, Poll 1, Wake 1] \<and>
   run skipPlan oneJob [Wake 1, Poll 1, Wake 1] blockedState
     = Some (blockedState\<lparr>pcs := [AcquireSem, WaitDeps]\<rparr>) \<and>
   results (blockedState\<lparr>pcs := [AcquireSem, WaitDeps]\<rparr>) = Map.empty \<and>
   Execute (Some skipPlan) oneJob None ([Acquire 1, Poll 1] @ [Wake 1, Poll 1, Wake 1]) 0
     = NotReturned"
proof -
  have h: "CallerCancels \<notin> set [Wake 1, Poll 1, Wake 1] \<and>
      run skipPlan oneJob [Wake 1, Poll 1, Wake 1] blockedState
        = Some (blockedState\<lparr>pcs := [AcquireSem, WaitDeps]\<rparr>)"
    by (simp add: fire_def skipPlan_simps blockedState_def)
  from polling_task_holds_slot [of "[Wake 1, Poll 1, Wake 1]"
      "blockedState\<lparr>pcs := [AcquireSem, WaitDeps]\<rparr>" 0] h
  show ?thesis by blast
qed

section \<open>Executor: skipped dependencies\<close>

























section \<open>Planner: Build\<close>

text \<open>\<^verbatim>\<open>config.Step\<close>, the step record of the configuration loader.\<close>

record Step =
  ID :: string
  Type :: string
  Command :: "string list"
  Deps :: "string list"
  Env :: "(string \<times> string) list"
  Timeout :: string
  Retries :: int

text \<open>The loop that converts each \<^verbatim>\<open>config.Step\<close> into a \<^verbatim>\<open>PlanStep\<close>, field by field.\<close>

definition toPlanStep :: "Step \<Rightarrow> PlanStep" where
  "toPlanStep s = \<lparr>PlanStep.ID = Step.ID s, PlanStep.Type = Step.Type s,
     PlanStep.Command = Step.Command s, PlanStep.Deps = Step.Deps s, PlanStep.Env = Step.Env s,
     PlanStep.Timeout = Step.Timeout s, PlanStep.Retries = Step.Retries s\<rparr>"

text \<open>
  \<^verbatim>\<open>hex.EncodeToString\<close>: two lower-case hexadecimal digits for every byte. A byte string
  is a \<^typ>\<open>string\<close>, whose characters are bytes.
\<close>

definition hexDigit :: "nat \<Rightarrow> char" where
  "hexDigit n = ''0123456789abcdef'' ! n"

definition EncodeToString :: "string \<Rightarrow> string" where
  "EncodeToString bs = concat (map (\<lambda>b. [hexDigit (of_char b div 16), hexDigit (of_char b mod 16)]) bs)"

text \<open>
  \<^verbatim>\<open>Build\<close>. The hash function \<^verbatim>\<open>sha256.Sum256\<close> of the Go library and the clock reading
  \<^verbatim>\<open>time.Now().UTC().Format(time.RFC3339)\<close> are parameters \<open>Sum256\<close> and \<open>now\<close>.
\<close>

definition Build :: "(string \<Rightarrow> string) \<Rightarrow> string \<Rightarrow> string \<Rightarrow> string \<Rightarrow> Step list \<Rightarrow> string \<Rightarrow>
    plan_error + Plan" where
  "Build Sum256 now projectName profileName steps configData =
     (if projectName = [] then Inl ProjectNameEmpty
      else if profileName = [] then Inl ProfileNameEmpty
      else let planSteps = map toPlanStep steps in
        case TopologicalSort planSteps of
          Inl err \<Rightarrow> Inl (BuildPlan err)
        | Inr order \<Rightarrow>
            Inr \<lparr>Plan.Version = 1, Plan.ProjectName = projectName, Plan.Profile = profileName,
                 Plan.ConfigHash = EncodeToString (Sum256 configData), Plan.CreatedAt = now,
                 Plan.Steps = planSteps, Plan.Order = order\<rparr>)"

definition isNameError :: "plan_error + Plan \<Rightarrow> bool" where
  "isNameError r \<longleftrightarrow> r = Inl ProjectNameEmpty \<or> r = Inl ProfileNameEmpty"

text \<open>
  C8, as the code has it. An empty project or profile name gives a validation error
  whatever the steps, the configuration bytes, the hash and the clock are. With both
  names non-empty, Build returns a plan exactly when the steps sort: its config_hash is
  then the hex encoding of the hash of the raw configuration bytes and its order is what
  TopologicalSort returns for the converted steps; when the sort fails, Build returns
  that error wrapped and no plan. Two successful calls on the same inputs, at whatever
  clock readings, agree on config_hash and order.
\<close>

theorem Build_plan:
  "(projectName = [] \<or> profileName = [] \<longrightarrow>
      isNameError (Build Sum256 now projectName profileName steps configData) \<and>
      Build Sum256 now projectName profileName steps configData
        = Build Sum256' now' projectName profileName steps' configData')
   \<and> (projectName \<noteq> [] \<and> profileName \<noteq> [] \<longrightarrow>
        (case TopologicalSort (map toPlanStep steps) of
           Inl err \<Rightarrow> Build Sum256 now projectName profileName steps configData = Inl (BuildPlan err)
         | Inr order \<Rightarrow>
             (\<exists>p. Build Sum256 now projectName profileName steps configData = Inr p \<and>
                Plan.ConfigHash p = EncodeToString (Sum256 configData) \<and> Plan.Order p = order \<and>
                Plan.Steps p = map toPlanStep steps)))
   \<and> (Build Sum256 now projectName profileName steps configData = Inr p1 \<and>
      Build Sum256 now' projectName profileName steps configData = Inr p2 \<longrightarrow>
        Plan.ConfigHash p1 = Plan.ConfigHash p2 \<and> Plan.Order p1 = Plan.Order p2)"
  by (auto simp: Build_def isNameError_def Let_def split: sum.splits if_splits)

definition lintStep :: Step where
  "lintStep = \<lparr>Step.ID = ''lint'', Type = ''shell'', Command = [''echo'', ''lint''], Deps = [],
     Env = [], Timeout = [], Retries = 0\<rparr>"

definition testStep :: Step where
  "testStep = \<lparr>Step.ID = ''test'', Type = ''shell'', Command = [''echo'', ''test''],
     Deps = [''lint''], Env = [], Timeout = [], Retries = 0\<rparr>"

definition cyclicStep :: Step where
  "cyclicStep = \<lparr>Step.ID = ''loop'', Type = ''shell'', Command = [''true''],
     Deps = [''loop''], Env = [], Timeout = [], Retries = 0\<rparr>"

lemma sort_lint_test:
  "TopologicalSort (map toPlanStep [testStep, lintStep]) = Inr [''lint'', ''test'']"
  by (simp add: TopologicalSort_def toPlanStep_def testStep_def lintStep_def degOf_def adjOf_def)

lemma sort_cyclicStep:
  "TopologicalSort (map toPlanStep [cyclicStep]) = Inl (CycleDetected 0 1)"
  by (simp add: TopologicalSort_def toPlanStep_def cyclicStep_def degOf_def adjOf_def)

text \<open>
  Build at an empty project name, at two steps that sort, and at a step that depends on
  itself (the hash is the identity here, so that the digest can be read off).
\<close>

theorem Build_plan_witness:
  "isNameError (Build (\<lambda>bs. bs) ''t0'' [] ''default'' [testStep, lintStep] ''abc'')
   \<and> Build (\<lambda>bs. bs) ''t0'' [] ''default'' [testStep, lintStep] ''abc''
       = Build (\<lambda>bs. rev bs) ''t1'' [] ''default'' [cyclicStep] ''xyz''
   \<and> (\<exists>p. Build (\<lambda>bs. bs) ''t0'' ''proj'' ''default'' [testStep, lintStep] ''abc'' = Inr p \<and>
         Plan.ConfigHash p = ''616263'' \<and> Plan.Order p = [''lint'', ''test''])
   \<and> Build (\<lambda>bs. bs) ''t0'' ''proj'' ''default'' [cyclicStep] ''abc''
       = Inl (BuildPlan (CycleDetected 0 1))"
proof -
  have hex: "EncodeToString ''abc'' = ''616263''"
    by (simp add: EncodeToString_def hexDigit_def)
  from Build_plan [of "[]" "''default''" "\<lambda>bs. bs" "''t0''" "[testStep, lintStep]" "''abc''"
      "\<lambda>bs. rev bs" "''t1''" "[cyclicStep]" "''xyz''"]
  have a: "isNameError (Build (\<lambda>bs. bs) ''t0'' [] ''default'' [testStep, lintStep] ''abc'')
     \<and> Build (\<lambda>bs. bs) ''t0'' [] ''default'' [testStep, lintStep] ''abc''
       = Build (\<lambda>bs. rev bs) ''t1'' [] ''default'' [cyclicStep] ''xyz''"
    by blast
  from Build_plan [of "''proj''" "''default''" "\<lambda>bs. bs" "''t0''" "[testStep, lintStep]" "''abc''"]
  have b: "\<exists>p. Build (\<lambda>bs. bs) ''t0'' ''proj'' ''default'' [testStep, lintStep] ''abc'' = Inr p \<and>
         Plan.ConfigHash p = ''616263'' \<and> Plan.Order p = [''lint'', ''test'']"
    by (simp only: sort_lint_test hex sum.case) blast
  from Build_plan [of "''proj''" "''default''" "\<lambda>bs. bs" "''t0''" "[cyclicStep]" "''abc''"]
  have c: "Build (\<lambda>bs. bs) ''t0'' ''proj'' ''default'' [cyclicStep] ''abc''
       = Inl (BuildPlan (CycleDetected 0 1))"
    by (simp only: sort_cyclicStep sum.case) blast
  from a b c show ?thesis by blast
qed

text \<open>
  C8 as stated fails: with both names non-empty Build returns an error, not a plan, when
  the steps do not sort.
\<close>

theorem Build_cycle_counterexample:
  "''proj'' \<noteq> [] \<and> ''default'' \<noteq> []
   \<and> Build (\<lambda>bs. bs) ''t0'' ''proj'' ''default'' [cyclicStep] ''abc''
       = Inl (BuildPlan (CycleDetected 0 1))"
  by (simp add: Build_def Let_def sort_cyclicStep del: list.map)

end
